theory Spec2Isabelle
  imports Complex_Main "HOL-Library.Word" "HOL-Library.Multiset" "HOL-Library.Char_ord"
    "HOL-Library.List_Lexorder"
begin

unbundle bit_operations_syntax

section \<open>PQ-tree (pkg/dag/perm/pqtree.go)\<close>

subsection \<open>Data model\<close>

text \<open>
  The Go tree is a graph of heap nodes linked by pointers. Every node object occurs in the
  children slice of exactly one parent (each rewrite moves whole subtrees and never copies
  a node), so the heap is a tree and is modelled as a value of a recursive datatype; an
  in-place update of a node is the replacement of that subtree. The \<open>parent\<close>
  back-pointer is not stored: its only read is the test \<open>parent == t.root\<close> of
  \<open>extendPartialChild\<close>, which is carried as the flag \<open>isRoot\<close> of the
  recursion (it holds exactly for the outermost call \<open>t.reduce(t.root)\<close>).
  \<open>t.leaves[i]\<close> points to the leaf object whose value is \<open>i\<close>; the slice is
  modelled by the list of these values, and a write through it is a write to the leaf of
  that value.

  A run-time panic of the Go code (index out of range, negative slice length) is the
  result \<open>None\<close>.
\<close>

datatype nodeKind = leafNode | pNode | qNode

datatype markKind = unmarked | empty | full | partial

datatype pqNode =
  PQNode (kind: nodeKind) (val: int) (children: "pqNode list")
         (mark: markKind) (fullCount: int) (partialCount: int)

record PQTree =
  root :: "pqNode option"
  leaves :: "int list"

text \<open>Go slice indexing \<open>xs[i]\<close>: a panic outside \<open>0 .. len(xs)-1\<close>.\<close>

definition index :: "'a list \<Rightarrow> int \<Rightarrow> 'a option" where
  "index xs i = (if 0 \<le> i \<and> i < int (length xs) then Some (xs ! nat i) else None)"

definition newLeaf :: "int \<Rightarrow> pqNode" where
  "newLeaf i = PQNode leafNode i [] unmarked 0 0"

definition NewPQTree :: "int \<Rightarrow> PQTree option" where
  "NewPQTree n =
     (if n = 0 then Some \<lparr>root = None, leaves = []\<rparr>
      else if n = 1 then Some \<lparr>root = Some (newLeaf 0), leaves = [0]\<rparr>
      else if n < 0 then None
      else let ls = map int [0 ..< nat n]
           in Some \<lparr>root = Some (PQNode pNode 0 (map newLeaf ls) unmarked 0 0),
                    leaves = ls\<rparr>)"

subsection \<open>Marking\<close>

fun clearMarks :: "pqNode \<Rightarrow> pqNode" where
  "clearMarks (PQNode k v cs m fc pc) = PQNode k v (map clearMarks cs) unmarked 0 0"

text \<open>\<open>leaf.mark = full\<close> for the leaf object of value \<open>v\<close>.\<close>

fun setLeafFull :: "int \<Rightarrow> pqNode \<Rightarrow> pqNode" where
  "setLeafFull v (PQNode k w cs m fc pc) =
     (if k = leafNode \<and> w = v then PQNode k w cs full fc pc
      else PQNode k w (map (setLeafFull v) cs) m fc pc)"

text \<open>The marking loop of \<open>Reduce\<close>: elements outside the leaf range are skipped
  by the guard, the others are looked up in \<open>t.leaves\<close>.\<close>

fun markConstraint :: "int list \<Rightarrow> int list \<Rightarrow> pqNode \<Rightarrow> pqNode option" where
  "markConstraint ls [] r = Some r"
| "markConstraint ls (elem # rest) r =
     (if elem \<ge> 0 \<and> elem < int (length ls)
      then (case index ls elem of
              None \<Rightarrow> None
            | Some v \<Rightarrow> markConstraint ls rest (setLeafFull v r))
      else markConstraint ls rest r)"

definition countMark :: "markKind \<Rightarrow> pqNode list \<Rightarrow> int" where
  "countMark m cs = int (length (filter (\<lambda>c. mark c = m) cs))"

fun bubbleUp :: "pqNode \<Rightarrow> pqNode" where
  "bubbleUp (PQNode k v cs m fc pc) =
     (if k = leafNode
      then (if m = unmarked then PQNode k v cs empty fc pc else PQNode k v cs m fc pc)
      else let cs' = map bubbleUp cs;
               fc' = countMark full cs';
               pc' = countMark partial cs';
               m' = (if fc' = int (length cs') then full
                     else if fc' = 0 \<and> pc' = 0 then empty
                     else partial)
           in PQNode k v cs' m' fc' pc')"

subsection \<open>Rewriting\<close>

fun setChildren :: "pqNode \<Rightarrow> pqNode list \<Rightarrow> pqNode" where
  "setChildren (PQNode k v cs m fc pc) cs' = PQNode k v cs' m fc pc"

text \<open>The recount at the end of \<open>reducePartialChildren\<close>.\<close>

fun setCounts :: "pqNode \<Rightarrow> pqNode" where
  "setCounts (PQNode k v cs m fc pc) =
     PQNode k v cs m (countMark full cs) (countMark partial cs)"

text \<open>
  The loop that rebuilds \<open>parent.children\<close> in \<open>groupChildren\<close> and
  \<open>extendPartialChild\<close>: the first child found in the pointer set is replaced by the
  new node, the later ones are dropped. The pointer sets hold children of \<open>parent\<close>
  chosen by their mark (all full children; the one partial child), and the mark is part of
  a node's value, so a child is in the pointer set exactly when it equals one of the set's
  members.
\<close>

fun replaceGroup :: "(pqNode \<Rightarrow> bool) \<Rightarrow> pqNode \<Rightarrow> bool \<Rightarrow> pqNode list \<Rightarrow> pqNode list" where
  "replaceGroup inSet node inserted [] = []"
| "replaceGroup inSet node inserted (child # rest) =
     (if inSet child
      then (if \<not> inserted then node # replaceGroup inSet node True rest
            else replaceGroup inSet node True rest)
      else child # replaceGroup inSet node inserted rest)"

definition groupChildren :: "pqNode \<Rightarrow> pqNode list \<Rightarrow> nodeKind \<Rightarrow> pqNode" where
  "groupChildren parent grp knd =
     (if length grp \<le> 1 then parent
      else let node = PQNode knd 0 grp (mark (grp ! 0)) 0 0;
               newChildren = replaceGroup (\<lambda>child. child \<in> set grp) node False (children parent)
           in setChildren parent newChildren)"

text \<open>The second component is the node standing in the place of \<open>parent\<close> afterwards:
  \<open>parent\<close> itself with its new children, or, when the root collapses, the new
  \<open>t.root\<close>.\<close>

definition extendPartialChild :: "bool \<Rightarrow> pqNode \<Rightarrow> pqNode \<Rightarrow> pqNode list \<Rightarrow> bool \<times> pqNode" where
  "extendPartialChild isRoot parent partialChild fullSiblings =
     (if length fullSiblings = 0 then (True, parent)
      else let fullInPartial = filter (\<lambda>child. mark child = full) (children partialChild);
               emptyInPartial = filter (\<lambda>child. mark child \<noteq> full) (children partialChild);
               chs = emptyInPartial @ fullInPartial @ fullSiblings;
               qnode = PQNode qNode 0 chs partial 0 0;
               newChildren = replaceGroup (\<lambda>child. child = partialChild \<or> child \<in> set fullSiblings)
                               qnode False (children parent)
           in if length newChildren = 1 \<and> isRoot then (True, newChildren ! 0)
              else (True, setChildren parent newChildren))"

definition mergeQNodes :: "pqNode \<Rightarrow> int \<Rightarrow> pqNode option" where
  "mergeQNodes parent idx =
     (case index (children parent) idx of
        None \<Rightarrow> None
      | Some child \<Rightarrow>
          if kind child \<noteq> qNode then Some parent
          else let cs = children parent;
                   gcs = children child;
                   reverse =
                     (if idx > 0 \<and> mark (cs ! nat (idx - 1)) = full
                      then length gcs > 0 \<and> mark (gcs ! (length gcs - 1)) = full
                      else if idx < int (length cs) - 1 \<and> mark (cs ! nat (idx + 1)) = full
                      then length gcs > 0 \<and> mark (gcs ! 0) = full
                      else False);
                   gcs' = (if reverse then rev gcs else gcs);
                   newChildren = take (nat idx) cs @ gcs' @ drop (nat idx + 1) cs
               in Some (setChildren parent newChildren))"

text \<open>\<open>reducePNode\<close> after \<open>reducePartialChildren\<close> has succeeded.\<close>

definition pNodeRewrite :: "bool \<Rightarrow> pqNode \<Rightarrow> (bool \<times> pqNode) option" where
  "pNodeRewrite isRoot n =
     (let fullCh = filter (\<lambda>child. mark child = full) (children n);
          emptyCh = filter (\<lambda>child. mark child = empty) (children n);
          partialCh = filter (\<lambda>child. mark child = partial) (children n)
      in if length partialCh > 1 then Some (False, n)
         else if length fullCh = 0 then Some (True, n)
         else if length partialCh = 0
         then (if length fullCh > 1 \<and> length emptyCh > 0
               then Some (True, groupChildren n fullCh pNode)
               else Some (True, n))
         else (case index partialCh 0 of
                 None \<Rightarrow> None
               | Some pc \<Rightarrow> Some (extendPartialChild isRoot n pc fullCh)))"

text \<open>The positions of the children carrying a given mark, ascending.\<close>

definition indicesOf :: "markKind \<Rightarrow> pqNode list \<Rightarrow> int list" where
  "indicesOf m cs = map int (filter (\<lambda>i. mark (cs ! i) = m) [0 ..< length cs])"

text \<open>The last loop of \<open>reduceQNode\<close>; \<open>n.children\<close> is read anew in each round.\<close>

fun mergeLoop :: "pqNode \<Rightarrow> int list \<Rightarrow> pqNode option" where
  "mergeLoop n [] = Some n"
| "mergeLoop n (idx # rest) =
     (case index (children n) idx of
        None \<Rightarrow> None
      | Some child \<Rightarrow>
          if kind child = qNode
          then (case mergeQNodes n idx of None \<Rightarrow> None | Some n' \<Rightarrow> mergeLoop n' rest)
          else mergeLoop n rest)"

text \<open>\<open>reduceQNode\<close> after \<open>reducePartialChildren\<close> has succeeded.\<close>

definition qNodeRewrite :: "pqNode \<Rightarrow> (bool \<times> pqNode) option" where
  "qNodeRewrite n =
     (let cs = children n;
          fullIdx = indicesOf full cs;
          firstIdx = (if fullIdx = [] then - 1 else hd fullIdx);
          lastIdx = (if fullIdx = [] then - 1 else last fullIdx);
          partialIdx = indicesOf partial cs
      in if firstIdx < 0 then Some (True, n)
         else if list_ex (\<lambda>i. mark (cs ! nat i) = empty) [firstIdx .. lastIdx] then Some (False, n)
         else if list_ex (\<lambda>idx. idx \<noteq> firstIdx - 1 \<and> idx \<noteq> lastIdx + 1) partialIdx
         then Some (False, n)
         else map_option (Pair True) (mergeLoop n partialIdx))"

function reduce :: "bool \<Rightarrow> pqNode \<Rightarrow> (bool \<times> pqNode) option"
  and reducePNode :: "bool \<Rightarrow> pqNode \<Rightarrow> (bool \<times> pqNode) option"
  and reduceQNode :: "pqNode \<Rightarrow> (bool \<times> pqNode) option"
  and reducePartialChildren :: "pqNode \<Rightarrow> (bool \<times> pqNode) option"
  and reducePartialLoop :: "pqNode list \<Rightarrow> (bool \<times> pqNode list) option"
where
  "reduce isRoot n =
     (if mark n = full \<or> mark n = empty then Some (True, n)
      else (case kind n of
              leafNode \<Rightarrow> Some (True, n)
            | pNode \<Rightarrow> reducePNode isRoot n
            | qNode \<Rightarrow> reduceQNode n))"
| "reducePNode isRoot n =
     (case reducePartialChildren n of
        None \<Rightarrow> None
      | Some (ok, n') \<Rightarrow> if \<not> ok then Some (False, n') else pNodeRewrite isRoot n')"
| "reduceQNode n =
     (case reducePartialChildren n of
        None \<Rightarrow> None
      | Some (ok, n') \<Rightarrow> if \<not> ok then Some (False, n') else qNodeRewrite n')"
| "reducePartialChildren n =
     (case reducePartialLoop (children n) of
        None \<Rightarrow> None
      | Some (ok, cs) \<Rightarrow>
          if \<not> ok then Some (False, setChildren n cs)
          else Some (True, setCounts (setChildren n cs)))"
| "reducePartialLoop [] = Some (True, [])"
| "reducePartialLoop (c # cs) =
     (if mark c = partial
      then (case reduce False c of
              None \<Rightarrow> None
            | Some (ok, c') \<Rightarrow>
                if \<not> ok then Some (False, c' # cs)
                else (case reducePartialLoop cs of
                        None \<Rightarrow> None
                      | Some (ok', cs') \<Rightarrow> Some (ok', c' # cs')))
      else (case reducePartialLoop cs of
              None \<Rightarrow> None
            | Some (ok', cs') \<Rightarrow> Some (ok', c # cs')))"
  by pat_completeness auto

lemma size_children_less: "size_list size (children n) < size n"
  by (cases n) simp

lemma size_children_less4: "4 * size_list size (children n) < Suc (4 * size n)"
  using size_children_less [of n] by simp

termination reduce
  by (relation "measure (\<lambda>x. case x of
          Inl (Inl (b, n)) \<Rightarrow> 4 * size n + 3
        | Inl (Inr (b, n)) \<Rightarrow> 4 * size n + 2
        | Inr (Inl n) \<Rightarrow> 4 * size n + 2
        | Inr (Inr (Inl n)) \<Rightarrow> 4 * size n + 1
        | Inr (Inr (Inr cs)) \<Rightarrow> 4 * size_list size cs)")
     (auto simp: size_children_less4)

declare reduce.simps [simp del] reducePNode.simps [simp del] reduceQNode.simps [simp del]
  reducePartialChildren.simps [simp del]

definition Reduce :: "PQTree \<Rightarrow> int list \<Rightarrow> (bool \<times> PQTree) option" where
  "Reduce t constraint =
     (case root t of
        None \<Rightarrow> Some (True, t)
      | Some r \<Rightarrow>
          if length constraint \<le> 1 \<or> length constraint = length (leaves t) then Some (True, t)
          else (case markConstraint (leaves t) constraint (clearMarks r) of
                  None \<Rightarrow> None
                | Some r1 \<Rightarrow>
                    let r2 = bubbleUp r1
                    in if mark r2 = empty then Some (True, t\<lparr>root := Some r2\<rparr>)
                       else (case reduce True r2 of
                               None \<Rightarrow> None
                             | Some (ok, r3) \<Rightarrow> Some (ok, t\<lparr>root := Some r3\<rparr>))))"

subsection \<open>Enumeration\<close>

text \<open>\<open>perm[i], perm[j] = perm[j], perm[i]\<close>\<close>

definition swap :: "nat \<Rightarrow> nat \<Rightarrow> 'a list \<Rightarrow> 'a list" where
  "swap i j xs = xs[i := xs ! j, j := xs ! i]"

text \<open>A measure for the permutation loop of \<open>forEachChildPerm\<close>: the counter
  \<open>state\<close> read as a number in the factorial number system, from position \<open>i\<close> upwards.\<close>

definition heapWeight :: "nat list \<Rightarrow> nat \<Rightarrow> nat" where
  "heapWeight state i = (\<Sum>j = i ..< length state. (j - state ! j) * fact (Suc j))"

lemma heapWeight_low: "(\<Sum>j = 0 ..< i. (j - f j) * fact (Suc j)) < (fact (Suc i) :: nat)"
proof (induction i)
  case 0
  then show ?case by simp
next
  case (Suc i)
  have "(i - f i) * fact (Suc i) \<le> i * (fact (Suc i) :: nat)"
    by (rule mult_le_mono1) simp
  with Suc show ?case by (simp add: algebra_simps)
qed

text \<open>
  The loop \<open>for i := 0; i < n; { ... }\<close> of \<open>forEachChildPerm\<close> (Heap's
  algorithm), as the list of the permutations it passes to \<open>fn\<close> while \<open>fn\<close>
  returns true; \<open>n\<close> is the length of \<open>state\<close>.
\<close>

function heapLoop :: "'a list \<Rightarrow> nat list \<Rightarrow> nat \<Rightarrow> 'a list list" where
  "heapLoop perm state i =
     (if i < length state
      then (if state ! i < i
            then let perm' = (if even i then swap 0 i perm else swap (state ! i) i perm)
                 in perm' # heapLoop perm' (state[i := state ! i + 1]) 0
            else heapLoop perm (state[i := 0]) (i + 1))
      else [])"
  by pat_completeness auto

lemma heapWeight_reset:
  assumes "i < length state" "\<not> state ! i < i"
  shows "heapWeight (state[i := 0]) (Suc i) = heapWeight state i"
proof -
  have "heapWeight state i = (i - state ! i) * fact (Suc i) + (\<Sum>j = Suc i ..< length state. (j - state ! j) * fact (Suc j))"
    using assms(1) by (simp add: heapWeight_def sum.atLeast_Suc_lessThan)
  also have "\<dots> = (\<Sum>j = Suc i ..< length state. (j - state ! j) * fact (Suc j))"
    using assms(2) by simp
  also have "\<dots> = heapWeight (state[i := 0]) (Suc i)"
    unfolding heapWeight_def by (rule sum.cong) auto
  finally show ?thesis by simp
qed

lemma heapWeight_incr:
  assumes "i < length state" "state ! i < i"
  shows "heapWeight (state[i := state ! i + 1]) 0 < heapWeight state i"
proof -
  let ?s = "state[i := state ! i + 1]"
  let ?n = "length state"
  have split: "{0 ..< ?n} = {0 ..< i} \<union> {i} \<union> {Suc i ..< ?n}"
    using assms(1) by auto
  have "heapWeight ?s 0 = (\<Sum>j = 0 ..< i. (j - ?s ! j) * fact (Suc j)) + (i - ?s ! i) * fact (Suc i)
        + (\<Sum>j = Suc i ..< ?n. (j - ?s ! j) * fact (Suc j))"
    unfolding heapWeight_def length_list_update
    by (subst split) (simp add: sum.union_disjoint)
  also have "(\<Sum>j = Suc i ..< ?n. (j - ?s ! j) * fact (Suc j)) = (\<Sum>j = Suc i ..< ?n. (j - state ! j) * fact (Suc j))"
    by (rule sum.cong) auto
  also have "(i - ?s ! i) * fact (Suc i) = (i - state ! i) * fact (Suc i) - fact (Suc i)"
    using assms by (simp add: diff_mult_distrib)
  finally have new: "heapWeight ?s 0 = (\<Sum>j = 0 ..< i. (j - ?s ! j) * fact (Suc j))
        + ((i - state ! i) * fact (Suc i) - fact (Suc i))
        + (\<Sum>j = Suc i ..< ?n. (j - state ! j) * fact (Suc j))" .
  have old: "heapWeight state i = (i - state ! i) * fact (Suc i) + (\<Sum>j = Suc i ..< ?n. (j - state ! j) * fact (Suc j))"
    using assms(1) by (simp add: heapWeight_def sum.atLeast_Suc_lessThan)
  have low: "(\<Sum>j = 0 ..< i. (j - ?s ! j) * fact (Suc j)) < (fact (Suc i) :: nat)"
    by (rule heapWeight_low)
  have ge: "(fact (Suc i) :: nat) \<le> (i - state ! i) * fact (Suc i)"
    using assms(2) by (cases "i - state ! i") auto
  show ?thesis using new old low ge by linarith
qed

termination heapLoop
proof (relation "measure (\<lambda>(perm, state, i). heapWeight state i * (length state + 1) + (length state - i))", goal_cases)
  case 1
  then show ?case by simp
next
  case (2 perm state i x)
  then have "heapWeight (state[i := state ! i + 1]) 0 < heapWeight state i"
    using heapWeight_incr [of i state] by simp
  then have "Suc (heapWeight (state[i := state ! i + 1]) 0) \<le> heapWeight state i" by simp
  then have "Suc (heapWeight (state[i := state ! i + 1]) 0) * (length state + 1) \<le> heapWeight state i * (length state + 1)"
    by (rule mult_le_mono1)
  then show ?case by simp
next
  case (3 perm state i)
  then show ?case by (simp add: heapWeight_reset)
qed


declare heapLoop.simps [simp del]

lemma mset_swap': "i < length xs \<Longrightarrow> j < length xs \<Longrightarrow> mset (swap i j xs) = mset xs"
  by (simp add: swap_def mset_swap)

lemma length_swap [simp]: "length (swap i j xs) = length xs"
  by (simp add: swap_def)

lemma heapLoop_mset:
  "length perm = length state \<Longrightarrow> xs \<in> set (heapLoop perm state i) \<Longrightarrow> mset xs = mset perm"
proof (induction perm state i rule: heapLoop.induct)
  case (1 perm state i)
  show ?case
  proof (cases "i < length state")
    case False
    with "1.prems" show ?thesis by (simp add: heapLoop.simps [of perm state i])
  next
    case True
    note i = this
    show ?thesis
    proof (cases "state ! i < i")
      case False
      with i "1.prems" "1.IH"(2) show ?thesis
        by (simp add: heapLoop.simps [of perm state i])
    next
      case True
      define perm' where "perm' = (if even i then swap 0 i perm else swap (state ! i) i perm)"
      have m: "mset perm' = mset perm" and l: "length perm' = length state"
      proof -
        have "0 < length perm" "i < length perm" "state ! i < length perm"
          using i True "1.prems"(1) by auto
        then show "mset perm' = mset perm" by (simp add: perm'_def mset_swap')
        show "length perm' = length state" using "1.prems"(1) by (simp add: perm'_def)
      qed
      have "xs = perm' \<or> xs \<in> set (heapLoop perm' (state[i := state ! i + 1]) 0)"
        using "1.prems"(2) i True
        by (simp add: heapLoop.simps [of perm state i] perm'_def Let_def split: if_splits)
      then show ?thesis
      proof
        assume "xs = perm'" with m show ?thesis by simp
      next
        assume "xs \<in> set (heapLoop perm' (state[i := state ! i + 1]) 0)"
        with "1.IH"(1) [OF i True perm'_def] l m show ?thesis by simp
      qed
    qed
  qed
qed


definition forEachChildPerm :: "pqNode \<Rightarrow> pqNode list list" where
  "forEachChildPerm node =
     (let cs = children node; n = length cs
      in if kind node = qNode then (if n \<le> 1 then [cs] else [cs, rev cs])
         else if n = 0 then [[]]
         else if n = 1 then [cs]
         else cs # heapLoop cs (replicate n 0) 0)"

lemma forEachChildPerm_mset:
  "chs \<in> set (forEachChildPerm node) \<Longrightarrow> mset chs = mset (children node)"
proof -
  assume a: "chs \<in> set (forEachChildPerm node)"
  let ?cs = "children node"
  from a consider "chs = ?cs" | "chs = rev ?cs" | "chs = []" "?cs = []"
    | "chs \<in> set (heapLoop ?cs (replicate (length ?cs) 0) 0)"
    by (auto simp: forEachChildPerm_def Let_def split: if_splits)
  then show ?thesis
  proof cases
    case 4
    from heapLoop_mset [OF _ 4] show ?thesis by simp
  qed simp_all
qed

lemma size_list_mset:
  "mset xs = mset ys \<Longrightarrow> size_list f xs = size_list f ys"
proof -
  assume a: "mset xs = mset ys"
  then have "sum_list (map f xs) = sum_list (map f ys)"
    by (metis mset_map sum_mset_sum_list)
  moreover have "length xs = length ys" using a by (rule mset_eq_length)
  ultimately show ?thesis by (simp add: size_list_conv_sum_list)
qed

lemma forEachChildPerm_size:
  "chs \<in> set (forEachChildPerm node) \<Longrightarrow> size_list size chs < size node"
  using size_list_mset [OF forEachChildPerm_mset, of chs node size] size_children_less [of node]
  by simp

text \<open>
  The enumeration calls \<open>emit\<close> once per ordering and stops everywhere as soon as a
  call returns false. \<open>enumerateLazy\<close> and \<open>enumerateChildrenLazy\<close> give the list
  of the orderings emitted, in order, while \<open>emit\<close> returns true.
\<close>

function enumerateLazy :: "pqNode \<Rightarrow> int list \<Rightarrow> int list list"
  and enumerateChildrenLazy :: "pqNode list \<Rightarrow> int list \<Rightarrow> int list list"
where
  "enumerateLazy node prefix =
     (if kind node = leafNode then [prefix @ [val node]]
      else concat (map (\<lambda>chs. enumerateChildrenLazy chs prefix) (forEachChildPerm node)))"
| "enumerateChildrenLazy [] prefix = [prefix]"
| "enumerateChildrenLazy (first # rest) prefix =
     concat (map (\<lambda>firstPerm. enumerateChildrenLazy rest (prefix @ firstPerm))
                 (enumerateLazy first []))"
  by pat_completeness auto

termination enumerateLazy
proof (relation "measure (\<lambda>x. case x of
          Inl (node, prefix) \<Rightarrow> 2 * size node
        | Inr (chs, prefix) \<Rightarrow> 2 * size_list size chs + 1)", goal_cases)
  case 1
  show ?case by simp
next
  case (2 node prefix chs)
  from forEachChildPerm_size [OF 2(2)] show ?case by simp
next
  case (3 first rest prefix)
  show ?case by simp
next
  case (4 first rest prefix firstPerm)
  show ?case by simp
qed

declare enumerateLazy.simps [simp del]

text \<open>The callback of \<open>Enumerate\<close> returns false once \<open>limit\<close> orderings are
  stored, when \<open>limit\<close> is positive.\<close>

definition Enumerate :: "PQTree \<Rightarrow> int \<Rightarrow> int list list" where
  "Enumerate t limit =
     (case root t of
        None \<Rightarrow> [[]]
      | Some r \<Rightarrow>
          let results = enumerateLazy r []
          in if limit \<le> 0 then results else take (nat limit) results)"

subsection \<open>Counting\<close>

text \<open>
  Modelled from the spec: \<open>perm.Factorial\<close> is not among the sources. The spec gives a
  P-node with \<open>k\<close> children the count \<open>k!\<close> times the product of its children's
  counts; the result type is Go's \<open>int\<close> (64 bits), which holds \<open>k!\<close> itself up to
  \<open>k = 20\<close> and its low 64 bits beyond.
\<close>

definition Factorial :: "int \<Rightarrow> 64 word" where
  "Factorial k = word_of_nat (fact (nat k))"

text \<open>Go's \<open>int\<close> arithmetic wraps around; the value of a result is read with \<open>sint\<close>.\<close>

fun countPerms :: "pqNode \<Rightarrow> 64 word" where
  "countPerms (PQNode k v cs m fc pc) =
     (if k = leafNode then 1
      else let product = foldl (\<lambda>product child. product * countPerms child) 1 cs
           in (case k of
                 qNode \<Rightarrow> 2 * product
               | _ \<Rightarrow> Factorial (int (length cs)) * product))"

definition ValidCount :: "PQTree \<Rightarrow> 64 word" where
  "ValidCount t = (case root t of None \<Rightarrow> 1 | Some r \<Rightarrow> countPerms r)"

subsection \<open>Sequences of reductions\<close>

text \<open>
  A caller's sequence \<open>Reduce(S\<^sub>1)\<close>, \<open>Reduce(S\<^sub>2)\<close>, ... on one tree, stopping at the
  first call that returns false (as \<open>applyParentConstraints\<close> does); the flag is true
  when every call returned true.
\<close>

fun reduceAll :: "PQTree \<Rightarrow> int list list \<Rightarrow> (bool \<times> PQTree) option" where
  "reduceAll t [] = Some (True, t)"
| "reduceAll t (c # cs) =
     (case Reduce t c of
        None \<Rightarrow> None
      | Some (ok, t') \<Rightarrow> if ok then reduceAll t' cs else Some (False, t'))"

definition constructAndReduce :: "int \<Rightarrow> int list list \<Rightarrow> (bool \<times> PQTree) option" where
  "constructAndReduce n cs = (case NewPQTree n of None \<Rightarrow> None | Some t \<Rightarrow> reduceAll t cs)"

text \<open>The elements of \<open>S\<close> that occur in the ordering \<open>xs\<close> form one block of it.\<close>

definition contiguous :: "int list \<Rightarrow> int list \<Rightarrow> bool" where
  "contiguous S xs =
     list_all (\<lambda>x. x \<notin> set S)
       (dropWhile (\<lambda>x. x \<in> set S) (dropWhile (\<lambda>x. x \<notin> set S) xs))"

text \<open>Every node that is not a leaf has a child: the trees that \<open>NewPQTree\<close> builds
  have this shape.\<close>

fun innerHasChildren :: "pqNode \<Rightarrow> bool" where
  "innerHasChildren (PQNode k v cs m fc pc) =
     ((k = leafNode \<or> cs \<noteq> []) \<and> list_all innerHasChildren cs)"

definition wellFormed :: "PQTree \<Rightarrow> bool" where
  "wellFormed t = (case root t of None \<Rightarrow> True | Some r \<Rightarrow> innerHasChildren r)"

section \<open>Optimal search (pkg/render/tower/ordering/optimal.go)\<close>

subsection \<open>Candidate limit\<close>

text \<open>Go's integer division truncates towards zero.\<close>

definition goDiv :: "int \<Rightarrow> int \<Rightarrow> int" where
  "goDiv a b = sgn a * sgn b * (\<bar>a\<bar> div \<bar>b\<bar>)"

definition maxCandidatesBase :: int where
  "maxCandidatesBase = 10000"

definition calcCandidateLimit :: "int \<Rightarrow> int" where
  "calcCandidateLimit numRows =
     (if numRows \<le> 3 then maxCandidatesBase
      else let limit = goDiv maxCandidatesBase numRows
           in max 100 (min 1000 limit))"

subsection \<open>The shared best solution\<close>

text \<open>
  The atomic cells of the solver that \<open>updateBest\<close> touches. A path holds one slice
  of row-local indices per row; a nil slice is \<open>None\<close>. \<open>cancelled\<close> records that
  \<open>s.cancel()\<close> has been called.
\<close>

record solver =
  bestScore :: int
  bestPath :: "int list option list"
  explored :: int
  cancelled :: bool

text \<open>
  \<open>updateBest\<close> runs in several goroutines at once, so one call is a sequence of atomic
  actions on the shared cells, and between two of them another call may act. The phase
  of a call: before \<open>explored.Add\<close>, before \<open>bestScore.Load\<close>, holding the
  loaded value \<open>current\<close>, after a successful compare-and-swap, and returned.
\<close>

datatype updateBestPhase = Entry | Load | Loaded int | Publish | Return

record updateBestCall =
  callPath :: "int list option list"
  callScore :: int
  callPhase :: updateBestPhase

fun updateBestStep :: "updateBestCall \<Rightarrow> solver \<Rightarrow> updateBestCall \<times> solver" where
  "updateBestStep c s =
     (case callPhase c of
        Entry \<Rightarrow> (c\<lparr>callPhase := Load\<rparr>, s\<lparr>explored := explored s + 1\<rparr>)
      | Load \<Rightarrow> (c\<lparr>callPhase := Loaded (bestScore s)\<rparr>, s)
      | Loaded current \<Rightarrow>
          if callScore c \<ge> current then (c\<lparr>callPhase := Return\<rparr>, s)
          else if bestScore s = current then (c\<lparr>callPhase := Publish\<rparr>, s\<lparr>bestScore := callScore c\<rparr>)
          else (c\<lparr>callPhase := Load\<rparr>, s)
      | Publish \<Rightarrow>
          (c\<lparr>callPhase := Return\<rparr>,
           s\<lparr>bestPath := callPath c, cancelled := (if callScore c = 0 then True else cancelled s)\<rparr>)
      | Return \<Rightarrow> (c, s))"

text \<open>One atomic action of one of the running calls.\<close>

inductive interleave ::
  "solver \<times> updateBestCall list \<Rightarrow> solver \<times> updateBestCall list \<Rightarrow> bool" where
  step: "i < length cs \<Longrightarrow> updateBestStep (cs ! i) s = (c', s')
          \<Longrightarrow> interleave (s, cs) (s', cs[i := c'])"

section \<open>Layered graph (package dag)\<close>

text \<open>
  Modelled from the spec: the package \<open>dag\<close> is not among the sources. A graph is the
  interface of spec section 3 that the orderers consume: the ascending row numbers, the
  nodes of a row, and the neighbours of a node. A node is given by its identifier (its
  \<open>ID\<close> field); \<open>EffectiveID\<close> is \<open>None\<close> where \<open>g.Node\<close> finds no node.
\<close>

record DAG =
  RowIDs :: "int list"
  NodesInRow :: "int \<Rightarrow> string list"
  ChildrenInRow :: "string \<Rightarrow> int \<Rightarrow> string list"
  ParentsInRow :: "string \<Rightarrow> int \<Rightarrow> string list"
  Children :: "string \<Rightarrow> string list"
  Parents :: "string \<Rightarrow> string list"
  EffectiveID :: "string \<Rightarrow> string option"

text \<open>A Go value of type \<open>map[int][]string\<close>: nil, or an allocated map. Reading a
  key of a nil map, or a missing key, gives the nil slice, which ranges like the empty one.\<close>

type_synonym orders = "int \<Rightarrow> string list option"

datatype gomap = nilMap | goMap orders

definition rowOrder :: "orders \<Rightarrow> int \<Rightarrow> string list" where
  "rowOrder os r = (case os r of None \<Rightarrow> [] | Some ids \<Rightarrow> ids)"

definition mapOrder :: "gomap \<Rightarrow> int \<Rightarrow> string list" where
  "mapOrder m r = (case m of nilMap \<Rightarrow> [] | goMap os \<Rightarrow> rowOrder os r)"

text \<open>The two-value read \<open>ids, ok := m[r]\<close>: \<open>None\<close> where the map has no entry for
  the row.\<close>

definition assigned :: "gomap \<Rightarrow> int \<Rightarrow> string list option" where
  "assigned m r = (case m of nilMap \<Rightarrow> None | goMap os \<Rightarrow> os r)"

text \<open>
  Modelled from the spec: the package \<open>dag\<close> is not among the sources. Spec section 3:
  the row numbers are listed in ascending order, each once, and the identifiers of the nodes of
  a graph are unique, so no row lists a node twice.
\<close>

definition distinctIDs :: "DAG \<Rightarrow> bool" where
  "distinctIDs g = (distinct (RowIDs g) \<and> (\<forall>r \<in> set (RowIDs g). distinct (NodesInRow g r)))"

text \<open>Modelled from the spec: \<open>dag.PosMap\<close> (position maps, spec section 2) sends each
  identifier of a row ordering to its position.\<close>

definition PosMap :: "string list \<Rightarrow> (string \<Rightarrow> int option)" where
  "PosMap ids = fold (\<lambda>(i, x) m. m(x \<mapsto> int i)) (List.enumerate 0 ids) Map.empty"

text \<open>\<open>buildNodeIndex\<close> of optimal.go, and the same loop inside \<open>toIndexPath\<close> and
  \<open>newFastGraph\<close>.\<close>

definition buildNodeIndex :: "string list \<Rightarrow> (string \<Rightarrow> int option)" where
  "buildNodeIndex nodes = fold (\<lambda>(i, n) idx. idx(n \<mapsto> int i)) (List.enumerate 0 nodes) Map.empty"

definition idsToIndices :: "string list \<Rightarrow> (string \<Rightarrow> int option) \<Rightarrow> int list" where
  "idsToIndices ids idx = List.map_filter idx ids"

subsection \<open>Crossing counts\<close>

text \<open>\<open>newFastGraph\<close>: for each pair of adjacent rows and each node of the upper row,
  the sorted row-local indices of its children in the lower row.\<close>

definition fastEdges :: "DAG \<Rightarrow> int \<Rightarrow> int \<Rightarrow> int list list" where
  "fastEdges g upperRow lowerRow =
     (let lowerIdx = buildNodeIndex (NodesInRow g lowerRow)
      in map (\<lambda>node. sort (idsToIndices (ChildrenInRow g node lowerRow) lowerIdx))
             (NodesInRow g upperRow))"

definition newFastGraph :: "DAG \<Rightarrow> int list \<Rightarrow> int list list list" where
  "newFastGraph g rows = map (\<lambda>i. fastEdges g (rows ! i) (rows ! (i + 1))) [0 ..< length rows - 1]"

text \<open>
  Modelled from the spec: \<open>dag.CountCrossingsIdx\<close> is not among the sources. Spec 4.3 and
  the glossary: the number of pairs of edges between the two rows whose end points are
  interleaved under the two orderings. An edge is listed as (position of its source in the
  upper ordering, position of its target in the lower ordering).
\<close>

definition positionOf :: "int list \<Rightarrow> int \<Rightarrow> nat" where
  "positionOf xs x = length (takeWhile (\<lambda>y. y \<noteq> x) xs)"

definition edgePositions :: "int list list \<Rightarrow> int list \<Rightarrow> int list \<Rightarrow> (nat \<times> nat) list" where
  "edgePositions edges upper lower =
     concat (map (\<lambda>(i, u). map (\<lambda>t. (i, positionOf lower t))
                              (filter (\<lambda>t. t \<in> set lower)
                                 (case index edges u of None \<Rightarrow> [] | Some ts \<Rightarrow> ts)))
                 (List.enumerate 0 upper))"

definition CountCrossingsIdx :: "int list list \<Rightarrow> int list \<Rightarrow> int list \<Rightarrow> int" where
  "CountCrossingsIdx edges upper lower =
     (let es = edgePositions edges upper lower
      in int (length (filter (\<lambda>(e, f). fst e < fst f \<and> snd f < snd e) (List.product es es))))"

text \<open>The sum over the adjacent row pairs of a path (one index ordering per row).\<close>

definition pathScore :: "int list list list \<Rightarrow> int list list \<Rightarrow> int" where
  "pathScore edges p =
     (\<Sum>i \<leftarrow> [1 ..< length p]. CountCrossingsIdx (edges ! (i - 1)) (p ! (i - 1)) (p ! i))"

text \<open>
  Modelled from the spec: \<open>dag.CountCrossings\<close> is not among the sources. Spec 4.3 and 8:
  the whole-graph count of an ordering is the sum over the adjacent row pairs of the pair
  counter, on the row-local index form of each row's ordering.
\<close>

definition CountCrossings :: "DAG \<Rightarrow> gomap \<Rightarrow> int" where
  "CountCrossings g m =
     (let rows = RowIDs g
      in pathScore (newFastGraph g rows)
           (map (\<lambda>r. idsToIndices (mapOrder m r) (buildNodeIndex (NodesInRow g r))) rows))"


section \<open>Barycentric orderer (pkg/render/tower/ordering/barycentric.go)\<close>

definition defaultPasses :: int where
  "defaultPasses = 24"

text \<open>\<open>cmp.Compare\<close> of the Go library; strings compare byte by byte.\<close>

definition cmpCompare :: "'a::linorder \<Rightarrow> 'a \<Rightarrow> int" where
  "cmpCompare a b = (if a < b then - 1 else if b < a then 1 else 0)"

text \<open>\<open>slices.SortStableFunc\<close> of the Go library: a stable sort by a comparison
  function, here by insertion.\<close>

fun insertStable :: "('a \<Rightarrow> 'a \<Rightarrow> int) \<Rightarrow> 'a \<Rightarrow> 'a list \<Rightarrow> 'a list" where
  "insertStable cmp x [] = [x]"
| "insertStable cmp x (y # ys) =
     (if cmp x y \<le> 0 then x # y # ys else y # insertStable cmp x ys)"

definition sortStableFunc :: "('a \<Rightarrow> 'a \<Rightarrow> int) \<Rightarrow> 'a list \<Rightarrow> 'a list" where
  "sortStableFunc cmp xs = foldr (insertStable cmp) xs []"

subsection \<open>Initial orders\<close>

text \<open>The local type \<open>entry\<close> of \<open>orderByMinParent\<close>. The average \<open>avgPos\<close> is a
  \<open>float64\<close> quotient of two integers in the source and the exact quotient here; it is
  only a sorting key.\<close>

record entry =
  entryId :: string
  minPos :: int
  avgPos :: rat

definition minParentEntry :: "DAG \<Rightarrow> string list \<Rightarrow> string \<Rightarrow> entry" where
  "minParentEntry g parentOrder n =
     (let parentPos = PosMap parentOrder;
          found = List.map_filter parentPos (Parents g n);
          minP = fold (\<lambda>pos m. if pos < m then pos else m) found (int (length parentOrder));
          sumPos = sum_list found;
          count = length found;
          avg = (if count > 0 then of_int sumPos / of_nat count else of_int minP)
      in \<lparr>entryId = n, minPos = minP, avgPos = avg\<rparr>)"

definition cmpEntry :: "entry \<Rightarrow> entry \<Rightarrow> int" where
  "cmpEntry a b =
     (if cmpCompare (minPos a) (minPos b) \<noteq> 0 then cmpCompare (minPos a) (minPos b)
      else if cmpCompare (avgPos a) (avgPos b) \<noteq> 0 then cmpCompare (avgPos a) (avgPos b)
      else cmpCompare (entryId a) (entryId b))"

definition orderByMinParent :: "DAG \<Rightarrow> string list \<Rightarrow> string list \<Rightarrow> string list" where
  "orderByMinParent g nodes parentOrder =
     map entryId (sortStableFunc cmpEntry (map (minParentEntry g parentOrder) nodes))"

definition initOrders :: "DAG \<Rightarrow> int list \<Rightarrow> orders" where
  "initOrders g rows =
     (if length rows = 0 then Map.empty
      else fold (\<lambda>r os. if length (NodesInRow g r) > 0
                         then os(r \<mapsto> orderByMinParent g (NodesInRow g r) (rowOrder os (r - 1)))
                         else os)
                (tl rows)
                (Map.empty(rows ! 0 \<mapsto> sortStableFunc cmpCompare (NodesInRow g (rows ! 0)))))"

subsection \<open>Weighted median\<close>

text \<open>
  Modelled from the spec: \<open>medianPosition\<close> is not among the sources. Spec 4.4: the median
  of the positions, for an even count the midpoint of the two central values; no median
  for no position.
\<close>

definition medianPosition :: "int list \<Rightarrow> int \<times> bool" where
  "medianPosition pos =
     (if pos = [] then (0, False)
      else let s = sort pos; n = length s
           in if odd n then (s ! (n div 2), True)
              else (goDiv (s ! (n div 2 - 1) + s ! (n div 2)) 2, True))"

definition weightedMedian :: "string list \<Rightarrow> (string \<Rightarrow> int option) \<Rightarrow> int \<times> bool" where
  "weightedMedian neighbors positions = medianPosition (List.map_filter positions neighbors)"

record nodeEntry =
  nodeId :: string
  median :: int
  hasMedian :: bool
  currentPos :: int

definition sortKey :: "nodeEntry \<Rightarrow> int" where
  "sortKey e = (if hasMedian e then median e else currentPos e)"

definition cmpNodeEntry :: "nodeEntry \<Rightarrow> nodeEntry \<Rightarrow> int" where
  "cmpNodeEntry a b =
     (if cmpCompare (sortKey a) (sortKey b) \<noteq> 0 then cmpCompare (sortKey a) (sortKey b)
      else if hasMedian a \<and> \<not> hasMedian b then - 1
      else if \<not> hasMedian a \<and> hasMedian b then 1
      else cmpCompare (currentPos a) (currentPos b))"

definition wmedian :: "DAG \<Rightarrow> string list \<Rightarrow> string list \<Rightarrow> string list \<Rightarrow> bool \<Rightarrow> string list" where
  "wmedian g nodes current fixed useParents =
     (if length nodes \<le> 1 then nodes
      else let fixedPos = PosMap fixed;
               currentP = PosMap current;
               entries = map (\<lambda>n.
                   let neighbors = (if useParents then Parents g n else Children g n);
                       pos = (case currentP n of Some p \<Rightarrow> p | None \<Rightarrow> int (length current));
                       m = weightedMedian neighbors fixedPos
                   in \<lparr>nodeId = n, median = fst m, hasMedian = snd m, currentPos = pos\<rparr>) nodes
           in map nodeId (sortStableFunc cmpNodeEntry entries))"

subsection \<open>Transpose refinement\<close>

text \<open>
  Modelled from the spec: \<open>dag.CountPairCrossingsWithPos\<close> is not among the sources. Spec
  4.3: how many crossings the pair contributes in the adjacent row when \<open>u\<close> stands left
  of \<open>v\<close>, that is the pairs of a neighbour of \<open>u\<close> and a neighbour of \<open>v\<close> with the
  first to the right of the second.
\<close>

definition pairCrossings :: "DAG \<Rightarrow> (string \<Rightarrow> int option) \<Rightarrow> bool \<Rightarrow> string \<Rightarrow> string \<Rightarrow> nat" where
  "pairCrossings g adjPos useParents u v =
     (let pu = List.map_filter adjPos (if useParents then Parents g u else Children g u);
          pv = List.map_filter adjPos (if useParents then Parents g v else Children g v)
      in length (filter (\<lambda>(x, y). y < x) (List.product pu pv)))"

definition CountPairCrossingsWithPos ::
  "DAG \<Rightarrow> string \<Rightarrow> string \<Rightarrow> (string \<Rightarrow> int option) \<Rightarrow> bool \<Rightarrow> int" where
  "CountPairCrossingsWithPos g u v adjPos useParents = int (pairCrossings g adjPos useParents u v)"

text \<open>The test that skips a pair: both nodes exist and share their effective identity.\<close>

definition sameEffective :: "DAG \<Rightarrow> string \<Rightarrow> string \<Rightarrow> bool" where
  "sameEffective g left right =
     (case EffectiveID g left of
        None \<Rightarrow> False
      | Some l \<Rightarrow> (case EffectiveID g right of None \<Rightarrow> False | Some r \<Rightarrow> l = r))"

text \<open>The inner loop \<open>for i := 0; i < len(order)-1; i++\<close> of \<open>transpose\<close>, from
  position \<open>i\<close> on.\<close>

function transposeScan ::
  "DAG \<Rightarrow> (string \<Rightarrow> int option) \<Rightarrow> bool \<Rightarrow> string list \<Rightarrow> nat \<Rightarrow> bool \<Rightarrow> string list \<times> bool" where
  "transposeScan g adjPos useParents order i swapped =
     (if i + 1 < length order
      then let left = order ! i; right = order ! (i + 1)
           in if sameEffective g left right
              then transposeScan g adjPos useParents order (i + 1) swapped
              else if CountPairCrossingsWithPos g right left adjPos useParents
                        < CountPairCrossingsWithPos g left right adjPos useParents
              then transposeScan g adjPos useParents (order[i := right, i + 1 := left]) (i + 1) True
              else transposeScan g adjPos useParents order (i + 1) swapped
      else (order, swapped))"
  by pat_completeness auto

termination transposeScan
  by (relation "measure (\<lambda>(g, adjPos, useParents, order, i, swapped). length order - i)") auto

declare transposeScan.simps [simp del]


text \<open>A measure for the outer loop of \<open>transpose\<close>: the crossings that all the pairs of
  the row contribute in their present order.\<close>

fun pairSum :: "('a \<Rightarrow> 'a \<Rightarrow> nat) \<Rightarrow> 'a list \<Rightarrow> nat" where
  "pairSum c [] = 0"
| "pairSum c (x # xs) = sum_list (map (c x) xs) + pairSum c xs"

lemma pairSum_swap:
  "pairSum c (as @ r # l # bs) + c l r = pairSum c (as @ l # r # bs) + c r l"
  by (induction as) (auto simp: algebra_simps)

lemma swap_adjacent:
  "i + 1 < length xs \<Longrightarrow>
     xs[i := xs ! (i + 1), i + 1 := xs ! i] = take i xs @ xs ! (i + 1) # xs ! i # drop (i + 2) xs"
proof (induction xs arbitrary: i)
  case Nil
  then show ?case by simp
next
  case (Cons x xs)
  show ?case
  proof (cases i)
    case 0
    with Cons.prems show ?thesis by (cases xs) auto
  next
    case (Suc j)
    with Cons.prems Cons.IH [of j] show ?thesis by simp
  qed
qed

lemma split_adjacent:
  "i + 1 < length xs \<Longrightarrow> xs = take i xs @ xs ! i # xs ! (i + 1) # drop (i + 2) xs"
  by (metis Cons_nth_drop_Suc Suc_eq_plus1 add_2_eq_Suc' append_take_drop_id less_SucI Suc_lessD)

lemma pairSum_swap_less:
  assumes "i + 1 < length xs" "c (xs ! (i + 1)) (xs ! i) < c (xs ! i) (xs ! (i + 1))"
  shows "pairSum c (xs[i := xs ! (i + 1), i + 1 := xs ! i]) < pairSum c xs"
proof -
  let ?as = "take i xs" and ?bs = "drop (i + 2) xs" and ?l = "xs ! i" and ?r = "xs ! (i + 1)"
  have "pairSum c (?as @ ?r # ?l # ?bs) + c ?l ?r = pairSum c (?as @ ?l # ?r # ?bs) + c ?r ?l"
    by (rule pairSum_swap)
  with assms(2) have "pairSum c (?as @ ?r # ?l # ?bs) < pairSum c (?as @ ?l # ?r # ?bs)" by linarith
  with swap_adjacent [OF assms(1)] split_adjacent [OF assms(1)] show ?thesis by simp
qed

lemma mset_swap_adjacent:
  "i + 1 < length xs \<Longrightarrow> mset (xs[i := xs ! (i + 1), i + 1 := xs ! i]) = mset xs"
  by (simp add: mset_swap)

lemma transposeScan_props:
  "transposeScan g adjPos useParents order i swapped = (order', swapped') \<Longrightarrow>
     mset order' = mset order \<and>
     pairSum (pairCrossings g adjPos useParents) order' \<le> pairSum (pairCrossings g adjPos useParents) order \<and>
     (swapped' \<and> \<not> swapped \<longrightarrow>
        pairSum (pairCrossings g adjPos useParents) order' < pairSum (pairCrossings g adjPos useParents) order)"
proof (induction g adjPos useParents order i swapped rule: transposeScan.induct)
  case (1 g adjPos useParents order i swapped)
  let ?c = "pairCrossings g adjPos useParents"
  show ?case
  proof (cases "i + 1 < length order")
    case False
    with "1.prems" show ?thesis by (simp add: transposeScan.simps [of g adjPos useParents order i])
  next
    case True
    note i = this
    show ?thesis
    proof (cases "sameEffective g (order ! i) (order ! (i + 1))")
      case True
      with i "1.prems" "1.IH"(1) [OF i refl refl True] show ?thesis
        by (simp add: transposeScan.simps [of g adjPos useParents order i])
    next
      case False
      note ns = this
      show ?thesis
      proof (cases "?c (order ! (i + 1)) (order ! i) < ?c (order ! i) (order ! (i + 1))")
        case True
        let ?o = "order[i := order ! (i + 1), i + 1 := order ! i]"
        from True have lt: "CountPairCrossingsWithPos g (order ! (i + 1)) (order ! i) adjPos useParents
              < CountPairCrossingsWithPos g (order ! i) (order ! (i + 1)) adjPos useParents"
          by (simp add: CountPairCrossingsWithPos_def)
        from "1.prems" i ns lt have r: "transposeScan g adjPos useParents ?o (i + 1) True = (order', swapped')"
          by (simp add: transposeScan.simps [of g adjPos useParents order i])
        from "1.IH"(2) [OF i refl refl ns lt r]
        have "mset order' = mset ?o" "pairSum ?c order' \<le> pairSum ?c ?o" by simp_all
        moreover have "mset ?o = mset order" using i by (rule mset_swap_adjacent)
        moreover have "pairSum ?c ?o < pairSum ?c order" using i True by (rule pairSum_swap_less)
        ultimately show ?thesis by simp
      next
        case False
        then have nlt: "\<not> CountPairCrossingsWithPos g (order ! (i + 1)) (order ! i) adjPos useParents
              < CountPairCrossingsWithPos g (order ! i) (order ! (i + 1)) adjPos useParents"
          by (simp add: CountPairCrossingsWithPos_def)
        from "1.prems" i ns nlt have r: "transposeScan g adjPos useParents order (i + 1) swapped = (order', swapped')"
          by (simp add: transposeScan.simps [of g adjPos useParents order i])
        from "1.IH"(3) [OF i refl refl ns nlt r] show ?thesis .
      qed
    qed
  qed
qed

text \<open>The outer loop \<open>for { ... if !swapped { break } }\<close> of \<open>transpose\<close>.\<close>

function transposeLoop ::
  "DAG \<Rightarrow> (string \<Rightarrow> int option) \<Rightarrow> bool \<Rightarrow> string list \<Rightarrow> string list" where
  "transposeLoop g adjPos useParents order =
     (case transposeScan g adjPos useParents order 0 False of
        (order', swapped) \<Rightarrow>
          if swapped then transposeLoop g adjPos useParents order' else order')"
  by pat_completeness auto

termination transposeLoop
proof (relation "measure (\<lambda>(g, adjPos, useParents, order). pairSum (pairCrossings g adjPos useParents) order)", goal_cases)
  case 1
  show ?case by simp
next
  case 2
  from transposeScan_props [OF 2(1) [symmetric]] 2(2) show ?case by simp
qed

declare transposeLoop.simps [simp del]

definition transposeRow :: "DAG \<Rightarrow> orders \<Rightarrow> int \<Rightarrow> int \<Rightarrow> bool \<Rightarrow> orders" where
  "transposeRow g os row adjRow useParents =
     (let order = rowOrder os row
      in if length order < 2 then os
         else os(row \<mapsto> transposeLoop g (PosMap (rowOrder os adjRow)) useParents order))"


subsection \<open>Passes\<close>

text \<open>\<open>copyOrders\<close> clones every slice; values are not shared in the model.\<close>

definition copyOrders :: "orders \<Rightarrow> orders" where
  "copyOrders os = os"

definition reverseOrders :: "orders \<Rightarrow> int list \<Rightarrow> orders" where
  "reverseOrders os rows = fold (\<lambda>r rv. rv(r \<mapsto> rev (rowOrder os r))) rows Map.empty"

text \<open>The two sweeps of one pass of \<open>runPasses\<close>.\<close>

definition sweepDown :: "DAG \<Rightarrow> int list \<Rightarrow> orders \<Rightarrow> orders" where
  "sweepDown g rows os =
     fold (\<lambda>r os. transposeRow g
                     (os(r \<mapsto> wmedian g (NodesInRow g r) (rowOrder os r) (rowOrder os (r - 1)) True))
                     r (r - 1) True)
          (tl rows) os"

definition sweepUp :: "DAG \<Rightarrow> int list \<Rightarrow> orders \<Rightarrow> orders" where
  "sweepUp g rows os =
     fold (\<lambda>r os. transposeRow g
                     (os(r \<mapsto> wmedian g (NodesInRow g r) (rowOrder os r) (rowOrder os (r + 1)) False))
                     r (r + 1) False)
          (rev (butlast rows)) os"

text \<open>The loop \<open>for pass := 0; pass < passes && bestScore > 0; pass++\<close>.\<close>

function runPassesLoop ::
  "DAG \<Rightarrow> int list \<Rightarrow> int \<Rightarrow> int \<Rightarrow> orders \<Rightarrow> orders \<Rightarrow> int \<Rightarrow> int \<Rightarrow> orders \<times> int" where
  "runPassesLoop g rows passes pass os best bestSc staleCount =
     (if pass < passes \<and> bestSc > 0
      then let prevScore = bestSc;
               os' = (if pass mod 2 = 0 then sweepDown g rows os else sweepUp g rows os);
               sc = CountCrossings g (goMap os');
               best' = (if sc < bestSc then copyOrders os' else best);
               bestSc' = (if sc < bestSc then sc else bestSc);
               staleCount' = (if sc < bestSc then 0 else staleCount + 1)
           in if staleCount' \<ge> 4 \<and> sc = prevScore then (best', bestSc')
              else runPassesLoop g rows passes (pass + 1) os' best' bestSc' staleCount'
      else (best, bestSc))"
  by pat_completeness auto

termination runPassesLoop
  by (relation "measure (\<lambda>(g, rows, passes, pass, os, best, bestSc, staleCount). nat (passes - pass))")
     auto

declare runPassesLoop.simps [simp del]

definition runPasses :: "DAG \<Rightarrow> int list \<Rightarrow> orders \<Rightarrow> int \<Rightarrow> orders \<times> int" where
  "runPasses g rows init passes =
     (let os = copyOrders init
      in runPassesLoop g rows passes 0 os (copyOrders os) (CountCrossings g (goMap os)) 0)"

text \<open>\<open>Barycentric.OrderRows\<close>; \<open>bPasses\<close> is the field \<open>Passes\<close> of the receiver.\<close>

definition Barycentric_OrderRows :: "int \<Rightarrow> DAG \<Rightarrow> gomap" where
  "Barycentric_OrderRows bPasses g =
     (let rows = RowIDs g
      in if length rows = 0 then nilMap
         else let passes = (if bPasses \<le> 0 then defaultPasses else bPasses);
                  best = initOrders g rows;
                  bestSc = CountCrossings g (goMap best)
              in if bestSc = 0 then goMap best
                 else let r1 = runPasses g rows best passes;
                          best1 = (if snd r1 < bestSc then fst r1 else best);
                          bestSc1 = (if snd r1 < bestSc then snd r1 else bestSc)
                      in if snd r1 < bestSc \<and> bestSc1 = 0 then goMap best1
                         else let r2 = runPasses g rows (reverseOrders best1 rows) passes
                              in if snd r2 < bestSc1 then goMap (fst r2) else goMap best1)"

section \<open>Optimal search: candidates, paths and the result\<close>

text \<open>
  Modelled from the spec: \<open>perm.Seq\<close> and \<open>perm.Generate\<close> are not among the sources.
  Spec 4.6: a row has the ordering \<open>0, ..., n-1\<close> as its one fixed ordering; spec 4.5: the
  unconstrained permutations of \<open>0 .. n-1\<close>, at most \<open>limit\<close> of them when \<open>limit\<close> is
  positive.
\<close>

definition Seq :: "nat \<Rightarrow> int list" where
  "Seq n = map int [0 ..< n]"

definition Generate :: "nat \<Rightarrow> int \<Rightarrow> int list list" where
  "Generate n limit =
     (let every = (if n \<le> 1 then [Seq n] else Seq n # heapLoop (Seq n) (replicate n 0) 0)
      in if limit \<le> 0 then every else take (nat limit) every)"

text \<open>A path \<open>[][]int\<close>: one slice of row-local indices per row, \<open>None\<close> for nil.\<close>

type_synonym path = "int list option list"

definition pathRow :: "path \<Rightarrow> nat \<Rightarrow> int list" where
  "pathRow p i = (case p ! i of None \<Rightarrow> [] | Some xs \<Rightarrow> xs)"

text \<open>The loop \<open>for j, id := range order[r] { indices[j] = nodeIdx[id] }\<close>; a missing
  key reads as 0, and an index beyond \<open>indices\<close> is a panic.\<close>

fun fillIndices :: "(string \<Rightarrow> int option) \<Rightarrow> string list \<Rightarrow> nat \<Rightarrow> int list \<Rightarrow> int list option" where
  "fillIndices nodeIdx [] j indices = Some indices"
| "fillIndices nodeIdx (ident # rest) j indices =
     (if j < length indices
      then fillIndices nodeIdx rest (j + 1)
             (indices[j := (case nodeIdx ident of None \<Rightarrow> 0 | Some i \<Rightarrow> i)])
      else None)"

fun toIndexRows :: "DAG \<Rightarrow> int list \<Rightarrow> gomap \<Rightarrow> path option" where
  "toIndexRows g [] order = Some []"
| "toIndexRows g (r # rows) order =
     (let nodes = NodesInRow g r
      in case fillIndices (buildNodeIndex nodes) (mapOrder order r) 0 (replicate (length nodes) 0) of
           None \<Rightarrow> None
         | Some indices \<Rightarrow>
             (case toIndexRows g rows order of
                None \<Rightarrow> None
              | Some p \<Rightarrow> Some (Some indices # p)))"

definition toIndexPath :: "DAG \<Rightarrow> int list \<Rightarrow> gomap \<Rightarrow> path option" where
  "toIndexPath g rows order = toIndexRows g rows order"

text \<open>\<open>ids[j] = nodes[idx].ID\<close> for every index of a row of the path.\<close>

fun rowIds :: "string list \<Rightarrow> int list \<Rightarrow> string list option" where
  "rowIds nodes [] = Some []"
| "rowIds nodes (idx # rest) =
     (case index nodes idx of
        None \<Rightarrow> None
      | Some ident \<Rightarrow> (case rowIds nodes rest of None \<Rightarrow> None | Some ids \<Rightarrow> Some (ident # ids)))"

text \<open>The loop of \<open>toStringOrder\<close> from row position \<open>i\<close> on.\<close>

fun toStringRows :: "(int \<Rightarrow> string list) \<Rightarrow> int list \<Rightarrow> path \<Rightarrow> nat \<Rightarrow> orders \<Rightarrow> orders option" where
  "toStringRows rowNodes [] p i result = Some result"
| "toStringRows rowNodes (r # rows) p i result =
     (if i \<ge> length p \<or> p ! i = None then toStringRows rowNodes rows p (i + 1) result
      else (case rowIds (rowNodes r) (pathRow p i) of
              None \<Rightarrow> None
            | Some ids \<Rightarrow> toStringRows rowNodes rows p (i + 1) (result(r \<mapsto> ids))))"

definition toStringOrder :: "(int \<Rightarrow> string list) \<Rightarrow> int list \<Rightarrow> path \<Rightarrow> gomap option" where
  "toStringOrder rowNodes rows p = map_option goMap (toStringRows rowNodes rows p 0 Map.empty)"


subsection \<open>Candidates of a row\<close>

fun applyParentConstraints ::
  "DAG \<Rightarrow> PQTree \<Rightarrow> (string \<Rightarrow> int option) \<Rightarrow> int \<Rightarrow> int list \<Rightarrow> string list
     \<Rightarrow> (bool \<times> PQTree) option" where
  "applyParentConstraints g tree nodeIdx row [] prevNodes = Some (True, tree)"
| "applyParentConstraints g tree nodeIdx row (idx # rest) prevNodes =
     (case index prevNodes idx of
        None \<Rightarrow> None
      | Some prevNode \<Rightarrow>
          let constraint = idsToIndices (ChildrenInRow g prevNode row) nodeIdx
          in if length constraint \<ge> 2
             then (case Reduce tree constraint of
                     None \<Rightarrow> None
                   | Some (ok, tree') \<Rightarrow>
                       if \<not> ok then Some (False, tree')
                       else applyParentConstraints g tree' nodeIdx row rest prevNodes)
             else applyParentConstraints g tree nodeIdx row rest prevNodes)"

text \<open>The loop of \<open>applyChildConstraints\<close> over the nodes of the next row.\<close>

fun childConstraintLoop ::
  "DAG \<Rightarrow> PQTree \<Rightarrow> (string \<Rightarrow> int option) \<Rightarrow> int \<Rightarrow> string list \<Rightarrow> (bool \<times> PQTree) option" where
  "childConstraintLoop g tree nodeIdx row [] = Some (True, tree)"
| "childConstraintLoop g tree nodeIdx row (child # rest) =
     (let constraint = idsToIndices (ParentsInRow g child row) nodeIdx
      in if length constraint \<ge> 2
         then (case Reduce tree constraint of
                 None \<Rightarrow> None
               | Some (ok, tree') \<Rightarrow>
                   if \<not> ok then Some (False, tree')
                   else childConstraintLoop g tree' nodeIdx row rest)
         else childConstraintLoop g tree nodeIdx row rest)"

definition applyChildConstraints ::
  "DAG \<Rightarrow> int list \<Rightarrow> PQTree \<Rightarrow> (string \<Rightarrow> int option) \<Rightarrow> nat \<Rightarrow> (bool \<times> PQTree) option" where
  "applyChildConstraints g rows tree nodeIdx depth =
     (if int depth \<ge> int (length rows) - 1 then Some (True, tree)
      else childConstraintLoop g tree nodeIdx (rows ! depth) (NodesInRow g (rows ! (depth + 1))))"

definition fallbackPermutations :: "int \<Rightarrow> nat \<Rightarrow> int list list" where
  "fallbackPermutations candLimit n = (if n \<le> 8 then Generate n (- 1) else Generate n candLimit)"

definition generateC1PCandidates ::
  "DAG \<Rightarrow> int list \<Rightarrow> int \<Rightarrow> nat \<Rightarrow> string list \<Rightarrow> int list \<Rightarrow> string list
     \<Rightarrow> int list list option" where
  "generateC1PCandidates g rows candLimit depth nodes prevOrder prevNodes =
     (let n = length nodes
      in if n \<le> 1 then Some [Seq n]
         else let nodeIdx = buildNodeIndex nodes
              in case NewPQTree (int n) of
                   None \<Rightarrow> None
                 | Some tree \<Rightarrow>
                     (case applyParentConstraints g tree nodeIdx (rows ! depth) prevOrder prevNodes of
                        None \<Rightarrow> None
                      | Some (ok1, tree1) \<Rightarrow>
                          if \<not> ok1 then Some (fallbackPermutations candLimit n)
                          else (case applyChildConstraints g rows tree1 nodeIdx depth of
                                  None \<Rightarrow> None
                                | Some (ok2, tree2) \<Rightarrow>
                                    if \<not> ok2 then Some (fallbackPermutations candLimit n)
                                    else let limit = (if n \<le> 8 then sint (ValidCount tree2) else candLimit);
                                             perms = Enumerate tree2 limit
                                         in if length perms = 0
                                            then Some (fallbackPermutations candLimit n)
                                            else Some perms)))"

subsection \<open>The paths of the search\<close>

definition findParallelRow :: "DAG \<Rightarrow> int list \<Rightarrow> nat" where
  "findParallelRow g rows =
     (case filter (\<lambda>i. length (NodesInRow g (rows ! i)) > 1) [0 ..< length rows] of
        [] \<Rightarrow> 0
      | i # _ \<Rightarrow> i)"

text \<open>\<open>buildPrefix\<close>: the rows above the parallel row in their one ordering, and the
  crossings between them.\<close>

definition buildPrefix :: "DAG \<Rightarrow> int list \<Rightarrow> nat \<Rightarrow> path \<times> int" where
  "buildPrefix g rows parallelRow =
     (let prefix = map (\<lambda>depth. if depth < parallelRow
                                  then Some (Seq (length (NodesInRow g (rows ! depth)))) else None)
                       [0 ..< length rows];
          edges = newFastGraph g rows
      in (prefix,
          (\<Sum>depth \<leftarrow> [1 ..< parallelRow].
              CountCrossingsIdx (edges ! (depth - 1)) (pathRow prefix (depth - 1)) (pathRow prefix depth))))"

text \<open>\<open>generateStartPermutations\<close> before its call of \<open>sortByBarycenter\<close>, which only
  permutes the list.\<close>

definition generateStartPermutations ::
  "DAG \<Rightarrow> int list \<Rightarrow> int \<Rightarrow> nat \<Rightarrow> path \<Rightarrow> int \<Rightarrow> int list list option" where
  "generateStartPermutations g rows candLimit parallelRow prefix workerLimit =
     (let parallelNodes = NodesInRow g (rows ! parallelRow);
          n = length parallelNodes
      in if parallelRow = 0
         then (if n \<le> 8 then Some (Generate n (- 1)) else Some (Generate n workerLimit))
         else (case generateC1PCandidates g rows candLimit parallelRow parallelNodes
                      (pathRow prefix (parallelRow - 1)) (NodesInRow g (rows ! (parallelRow - 1))) of
                 None \<Rightarrow> None
               | Some starts \<Rightarrow>
                   if int (length starts) > workerLimit then Some (take (nat workerLimit) starts)
                   else Some starts))"

text \<open>
  The calls \<open>s.dfs(depth, score, path, ws)\<close> that a run of \<open>search\<close> can make, whatever
  the goroutines read from the shared cells and the context: the pruning tests and the
  cancellation only cut calls off. \<open>workers\<close> is \<open>runtime.GOMAXPROCS(0)\<close>. A panic
  in a goroutine ends the program, so that no ordering is returned; a call whose candidates
  cannot be computed (\<open>None\<close>) therefore has no successor.
\<close>

inductive dfs :: "DAG \<Rightarrow> int \<Rightarrow> nat \<Rightarrow> int \<Rightarrow> path \<Rightarrow> bool" for g :: DAG and workers :: int where
  start:
    "rows = RowIDs g \<Longrightarrow> parallelRow = findParallelRow g rows
       \<Longrightarrow> buildPrefix g rows parallelRow = (prefix, prefixScore)
       \<Longrightarrow> generateStartPermutations g rows (calcCandidateLimit (int (length rows))) parallelRow
             prefix (workers * 100) = Some starts
       \<Longrightarrow> start \<in> set starts
       \<Longrightarrow> sc = prefixScore +
             (if parallelRow > 0
              then CountCrossingsIdx (newFastGraph g rows ! (parallelRow - 1))
                     (pathRow prefix (parallelRow - 1)) start
              else 0)
       \<Longrightarrow> dfs g workers (parallelRow + 1) sc (prefix[parallelRow := Some start])"
| emptyRow:
    "dfs g workers depth sc p \<Longrightarrow> rows = RowIDs g \<Longrightarrow> depth < length rows
       \<Longrightarrow> length (NodesInRow g (rows ! depth)) = 0
       \<Longrightarrow> dfs g workers (depth + 1) sc (p[depth := None])"
| candidate:
    "dfs g workers depth sc p \<Longrightarrow> rows = RowIDs g \<Longrightarrow> depth < length rows
       \<Longrightarrow> nodes = NodesInRow g (rows ! depth) \<Longrightarrow> length nodes \<noteq> 0
       \<Longrightarrow> prevOrder = pathRow p (depth - 1)
       \<Longrightarrow> generateC1PCandidates g rows (calcCandidateLimit (int (length rows))) depth nodes
             prevOrder (NodesInRow g (rows ! (depth - 1))) = Some candidates
       \<Longrightarrow> cand \<in> set candidates
       \<Longrightarrow> newScore = sc + CountCrossingsIdx (newFastGraph g rows ! (depth - 1)) prevOrder cand
       \<Longrightarrow> dfs g workers (depth + 1) newScore (p[depth := Some cand])"

text \<open>
  What \<open>s.bestPath.Load()\<close> can return after \<open>s.search()\<close>: the cells start with the
  score and the path of the barycentric ordering, and calls of \<open>updateBest\<close> made at the
  end of the paths of \<open>dfs\<close> act on them in any interleaving.
\<close>

definition searchResult :: "DAG \<Rightarrow> int \<Rightarrow> int \<Rightarrow> path \<Rightarrow> path \<Rightarrow> bool" where
  "searchResult g workers initialScore initialPath final =
     (\<exists>calls calls' s'.
        list_all (\<lambda>c. callPhase c = Entry \<and>
                      dfs g workers (length (RowIDs g)) (callScore c) (callPath c)) calls \<and>
        interleave\<^sup>*\<^sup>*
          (\<lparr>bestScore = initialScore, bestPath = initialPath, explored = 0, cancelled = False\<rparr>, calls)
          (s', calls') \<and>
        final = bestPath s')"

text \<open>\<open>OptimalSearch.OrderRows\<close>; \<open>final\<close> is the path that \<open>s.bestPath.Load()\<close>
  returns after the search.\<close>

definition OrderRows :: "DAG \<Rightarrow> path \<Rightarrow> gomap option" where
  "OrderRows g final =
     (let rows = RowIDs g
      in if length rows = 0 then Some nilMap
         else let initial = Barycentric_OrderRows 0 g;
                  initialScore = CountCrossings g initial
              in if initialScore = 0 then Some initial
                 else (case toIndexPath g rows initial of
                         None \<Rightarrow> None
                       | Some initialPath \<Rightarrow> toStringOrder (NodesInRow g) rows final))"

text \<open>The paths that \<open>s.bestPath.Load()\<close> can return in \<open>OrderRows\<close>: the cells
  are initialised from the barycentric ordering of the graph and its crossing count.\<close>

definition searchOutcome :: "DAG \<Rightarrow> int \<Rightarrow> path \<Rightarrow> bool" where
  "searchOutcome g workers final =
     (case toIndexPath g (RowIDs g) (Barycentric_OrderRows 0 g) of
        None \<Rightarrow> False
      | Some initialPath \<Rightarrow>
          searchResult g workers (CountCrossings g (Barycentric_OrderRows 0 g)) initialPath final)"

subsection \<open>Small graphs\<close>

definition emptyDAG :: DAG where
  "emptyDAG = \<lparr>RowIDs = [], NodesInRow = (\<lambda>r. []), ChildrenInRow = (\<lambda>n r. []),
      ParentsInRow = (\<lambda>n r. []), Children = (\<lambda>n. []), Parents = (\<lambda>n. []),
      EffectiveID = (\<lambda>n. None)\<rparr>"

definition singleDAG :: DAG where
  "singleDAG = \<lparr>RowIDs = [0], NodesInRow = (\<lambda>r. if r = 0 then [''a''] else []),
      ChildrenInRow = (\<lambda>n r. []), ParentsInRow = (\<lambda>n r. []), Children = (\<lambda>n. []),
      Parents = (\<lambda>n. []), EffectiveID = (\<lambda>n. Some n)\<rparr>"

text \<open>Two rows of two nodes, every node of the upper row joined to every node of the
  lower row: every ordering has one crossing.\<close>

definition crossDAG :: DAG where
  "crossDAG = \<lparr>RowIDs = [0, 1],
      NodesInRow = (\<lambda>r. if r = 0 then [''a'', ''b''] else if r = 1 then [''c'', ''d''] else []),
      ChildrenInRow = (\<lambda>n r. if r = 1 \<and> (n = ''a'' \<or> n = ''b'') then [''c'', ''d''] else []),
      ParentsInRow = (\<lambda>n r. if r = 0 \<and> (n = ''c'' \<or> n = ''d'') then [''a'', ''b''] else []),
      Children = (\<lambda>n. if n = ''a'' \<or> n = ''b'' then [''c'', ''d''] else []),
      Parents = (\<lambda>n. if n = ''c'' \<or> n = ''d'' then [''a'', ''b''] else []),
      EffectiveID = (\<lambda>n. Some n)\<rparr>"


section \<open>Invariants\<close>

subsection \<open>The leaves of a PQ-tree\<close>

text \<open>The values at the leaves of a subtree, from left to right.\<close>

fun leavesOf :: "pqNode \<Rightarrow> int list" where
  "leavesOf (PQNode k v cs m fc pc) = (if k = leafNode then [v] else concat (map leavesOf cs))"

text \<open>A leaf has no children and is never marked partial (\<open>bubbleUp\<close> gives a leaf
  the mark full or empty).\<close>

fun leafOK :: "pqNode \<Rightarrow> bool" where
  "leafOK (PQNode k v cs m fc pc) =
     ((k \<noteq> leafNode \<or> (cs = [] \<and> m \<noteq> partial)) \<and> list_all leafOK cs)"

definition leafMs :: "pqNode list \<Rightarrow> int multiset" where
  "leafMs cs = mset (concat (map leavesOf cs))"

definition treeLeaves :: "PQTree \<Rightarrow> int list" where
  "treeLeaves t = (case root t of None \<Rightarrow> [] | Some r \<Rightarrow> leavesOf r)"

definition treeOK :: "PQTree \<Rightarrow> bool" where
  "treeOK t = (case root t of None \<Rightarrow> True | Some r \<Rightarrow> leafOK r)"

subsection \<open>Row orderings\<close>

text \<open>Every entry of an ordering lists the nodes of its row, each once; every non-empty
  row of \<open>rows\<close> has an entry.\<close>

definition ordersOK :: "DAG \<Rightarrow> orders \<Rightarrow> bool" where
  "ordersOK g os = (\<forall>r ids. os r = Some ids \<longrightarrow> mset ids = mset (NodesInRow g r))"

definition ordersCover :: "DAG \<Rightarrow> int list \<Rightarrow> orders \<Rightarrow> bool" where
  "ordersCover g rows os = (\<forall>r \<in> set rows. NodesInRow g r \<noteq> [] \<longrightarrow> os r \<noteq> None)"

text \<open>A row of a path is nil for a row without nodes, or lists the indices
  \<open>0 .. n-1\<close> of the nodes of the row, each once.\<close>

definition rowOK :: "DAG \<Rightarrow> int \<Rightarrow> int list option \<Rightarrow> bool" where
  "rowOK g r row = (case row of None \<Rightarrow> NodesInRow g r = []
                    | Some xs \<Rightarrow> mset xs = mset (Seq (length (NodesInRow g r))))"

definition pathOK :: "DAG \<Rightarrow> path \<Rightarrow> bool" where
  "pathOK g p = (length p = length (RowIDs g) \<and>
                 (\<forall>i < length (RowIDs g). rowOK g (RowIDs g ! i) (p ! i)))"

text \<open>The crossings between the first \<open>depth\<close> rows of a path.\<close>

definition prefixCrossings :: "DAG \<Rightarrow> path \<Rightarrow> nat \<Rightarrow> int" where
  "prefixCrossings g p depth =
     (\<Sum>i \<leftarrow> [1 ..< depth]. CountCrossingsIdx (newFastGraph g (RowIDs g) ! (i - 1))
                                (pathRow p (i - 1)) (pathRow p i))"

text \<open>What holds at every call \<open>s.dfs(depth, score, path, ws)\<close>.\<close>

definition dfsOK :: "DAG \<Rightarrow> nat \<Rightarrow> int \<Rightarrow> path \<Rightarrow> bool" where
  "dfsOK g depth sc p =
     (length p = length (RowIDs g) \<and> 0 < depth \<and> depth \<le> length (RowIDs g) \<and>
      (\<forall>i < depth. rowOK g (RowIDs g ! i) (p ! i)) \<and> sc = prefixCrossings g p depth)"

text \<open>The read \<open>nodeIdx[id]\<close> of a Go map: 0 for a missing key.\<close>

definition indexOr0 :: "(string \<Rightarrow> int option) \<Rightarrow> string \<Rightarrow> int" where
  "indexOr0 idx ident = (case idx ident of None \<Rightarrow> 0 | Some i \<Rightarrow> i)"

subsection \<open>Concurrent calls of \<open>updateBest\<close>\<close>

text \<open>\<open>calls\<close> are the calls as they were made, \<open>cs\<close> their current states: a call
  that has won the compare-and-swap has a score below \<open>bound\<close>, the first value of
  \<open>bestScore\<close>; the best path is the first one or the path of such a call.\<close>

definition callsOK :: "int \<Rightarrow> updateBestCall list \<Rightarrow> updateBestCall list \<Rightarrow> bool" where
  "callsOK bound calls cs =
     (length cs = length calls \<and>
      (\<forall>i < length cs. callPath (cs ! i) = callPath (calls ! i) \<and>
                       (callPhase (cs ! i) = Publish \<longrightarrow> callScore (calls ! i) < bound)))"

definition bestOK :: "int \<Rightarrow> int list option list \<Rightarrow> updateBestCall list \<Rightarrow> solver \<Rightarrow> bool" where
  "bestOK bound initialPath calls s =
     (bestScore s \<le> bound \<and>
      (bestPath s = initialPath \<or> (\<exists>c \<in> set calls. bestPath s = callPath c \<and> callScore c < bound)))"

section \<open>Properties of the PQ-tree\<close>

lemma foldl_leaves:
  "foldl (\<lambda>product child. product * countPerms child) a (map (\<lambda>x. newLeaf (f x)) xs) = a"
  by (induction xs arbitrary: a) (auto simp: newLeaf_def)

lemma fact20: "(fact 20 :: nat) = 2432902008176640000"
  by (simp add: fact_numeral)

text \<open>
  C4 (as amended): for \<open>0 \<le> n \<le> 20\<close>, \<open>ValidCount()\<close> right after
  \<open>NewPQTree(n)\<close> is \<open>n!\<close> when \<open>n \<ge> 2\<close> and 1 when \<open>n \<le> 1\<close>.
\<close>

theorem ValidCount_NewPQTree:
  assumes "0 \<le> n" "n \<le> 20"
  shows "map_option (\<lambda>t. sint (ValidCount t)) (NewPQTree n)
           = Some (if 2 \<le> n then fact (nat n) else 1)"
proof -
  consider "n = 0" | "n = 1" | "2 \<le> n" using assms(1) by linarith
  then show ?thesis
  proof cases
    case 1
    then show ?thesis by (simp add: NewPQTree_def ValidCount_def)
  next
    case 2
    then show ?thesis by (simp add: NewPQTree_def ValidCount_def newLeaf_def)
  next
    case 3
    have "fact (nat n) \<le> (fact 20 :: nat)" using assms(2) by (intro fact_mono) simp
    then have "(fact (nat n) :: nat) < 9223372036854775808" by (simp add: fact20)
    then have "int (fact (nat n)) < 9223372036854775808" by linarith
    then have "int (fact (nat n)) < 2 ^ 63" by simp
    moreover have "- (2 ^ 63) \<le> int (fact (nat n))"
      by (rule order_trans [of _ 0]) simp_all
    ultimately have "signed_take_bit 63 (int (fact (nat n))) = int (fact (nat n))"
      by (rule signed_take_bit_int_eq_self [rotated])
    then have "sint (word_of_nat (fact (nat n)) :: 64 word) = int (fact (nat n))"
      by (simp add: signed_of_nat)
    with 3 show ?thesis
      by (simp add: NewPQTree_def ValidCount_def Let_def foldl_leaves Factorial_def comp_def)
  qed
qed

theorem ValidCount_NewPQTree_witness:
  "(0::int) \<le> 5 \<and> (5::int) \<le> 20 \<and>
   map_option (\<lambda>t. sint (ValidCount t)) (NewPQTree 5) = Some 120"
  using ValidCount_NewPQTree [of 5] by (simp add: fact_numeral)

text \<open>
  C4 as stated fails from \<open>n = 21\<close> on: \<open>21!\<close> is 51090942171709440000, which a 64-bit
  \<open>int\<close> cannot hold, and \<open>ValidCount()\<close> is a negative number.
\<close>

theorem ValidCount_NewPQTree_21:
  "map_option (\<lambda>t. sint (ValidCount t)) (NewPQTree 21) = Some (- 4249290049419214848) \<and>
   (fact 21 :: int) = 51090942171709440000"
  by (simp add: NewPQTree_def ValidCount_def Let_def foldl_leaves Factorial_def fact_numeral
      comp_def)

text \<open>
  C5: when the constraint has at most one element or as many as the tree has leaves,
  \<open>Reduce\<close> returns true and the tree, hence its \<open>ValidCount()\<close>, is what it was.
\<close>

theorem Reduce_trivial:
  assumes "length c \<le> 1 \<or> length c = length (leaves t)"
  shows "\<exists>t'. Reduce t c = Some (True, t') \<and> t' = t \<and> ValidCount t' = ValidCount t"
  using assms by (auto simp: Reduce_def split: option.splits)

theorem Reduce_trivial_witness:
  "length [0, 1, 2 :: int] = length (leaves \<lparr>root = Some (PQNode pNode 0 [newLeaf 0, newLeaf 1, newLeaf 2] unmarked 0 0), leaves = [0, 1, 2]\<rparr>) \<and>
   Reduce \<lparr>root = Some (PQNode pNode 0 [newLeaf 0, newLeaf 1, newLeaf 2] unmarked 0 0), leaves = [0, 1, 2]\<rparr> [0, 1, 2]
     = Some (True, \<lparr>root = Some (PQNode pNode 0 [newLeaf 0, newLeaf 1, newLeaf 2] unmarked 0 0), leaves = [0, 1, 2]\<rparr>)"
  using Reduce_trivial [of "[0, 1, 2]"
      "\<lparr>root = Some (PQNode pNode 0 [newLeaf 0, newLeaf 1, newLeaf 2] unmarked 0 0), leaves = [0, 1, 2]\<rparr>"]
  by simp

subsection \<open>Every tree that is built has children under each inner node\<close>

lemma innerHasChildren_iff:
  "innerHasChildren n \<longleftrightarrow> (kind n = leafNode \<or> children n \<noteq> []) \<and> list_all innerHasChildren (children n)"
  by (cases n) simp

lemma innerHasChildren_setChildren:
  "innerHasChildren (setChildren n cs) \<longleftrightarrow> (kind n = leafNode \<or> cs \<noteq> []) \<and> list_all innerHasChildren cs"
  by (cases n) simp

lemma innerHasChildren_setCounts [simp]: "innerHasChildren (setCounts n) = innerHasChildren n"
  by (cases n) simp

lemma kind_setChildren [simp]: "kind (setChildren n cs) = kind n"
  by (cases n) simp

lemma children_setChildren [simp]: "children (setChildren n cs) = cs"
  by (cases n) simp

lemma innerHasChildren_clearMarks [simp]: "innerHasChildren (clearMarks n) = innerHasChildren n"
  by (induction n) (auto simp: list_all_iff)

lemma innerHasChildren_setLeafFull [simp]: "innerHasChildren (setLeafFull v n) = innerHasChildren n"
  by (induction n) (auto simp: list_all_iff)

lemma innerHasChildren_bubbleUp [simp]: "innerHasChildren (bubbleUp n) = innerHasChildren n"
  by (induction n) (auto simp: list_all_iff Let_def)

lemma innerHasChildren_markConstraint:
  "markConstraint ls c r = Some r' \<Longrightarrow> innerHasChildren r' = innerHasChildren r"
  by (induction c arbitrary: r) (auto split: if_splits option.splits)

lemma replaceGroup_all:
  "list_all P cs \<Longrightarrow> P node \<Longrightarrow> list_all P (replaceGroup f node b cs)"
  by (induction cs arbitrary: b) auto

lemma replaceGroup_nonempty: "cs \<noteq> [] \<Longrightarrow> replaceGroup f node False cs \<noteq> []"
  by (cases cs) auto

lemma innerHasChildren_groupChildren:
  "innerHasChildren parent \<Longrightarrow> set grp \<subseteq> set (children parent) \<Longrightarrow> knd \<noteq> leafNode
     \<Longrightarrow> innerHasChildren (groupChildren parent grp knd)"
  apply (simp add: groupChildren_def Let_def innerHasChildren_setChildren)
  apply (auto simp: innerHasChildren_iff [of parent] replaceGroup_nonempty intro!: replaceGroup_all)
  apply (auto simp: list_all_iff)
  done


lemma list_all_filter: "list_all P cs \<Longrightarrow> list_all P (filter f cs)"
  by (simp add: list_all_iff)

lemma innerHasChildren_children: "innerHasChildren n \<Longrightarrow> list_all innerHasChildren (children n)"
  by (simp add: innerHasChildren_iff [of n])

lemma innerHasChildren_extendPartialChild:
  assumes "innerHasChildren parent" "innerHasChildren pc" "list_all innerHasChildren fullSiblings"
      and "extendPartialChild isRoot parent pc fullSiblings = (ok, n')"
  shows "innerHasChildren n'"
proof (cases "length fullSiblings = 0")
  case True
  with assms show ?thesis by (simp add: extendPartialChild_def)
next
  case False
  define qnode where "qnode = PQNode qNode 0
     (filter (\<lambda>child. mark child \<noteq> full) (children pc) @ filter (\<lambda>child. mark child = full) (children pc) @ fullSiblings)
     partial 0 0"
  define newChildren where "newChildren = replaceGroup (\<lambda>child. child = pc \<or> child \<in> set fullSiblings)
                               qnode False (children parent)"
  have q: "innerHasChildren qnode"
    using False assms(2,3) by (simp add: qnode_def list_all_filter innerHasChildren_children)
  have all: "list_all innerHasChildren newChildren"
    unfolding newChildren_def using assms(1) q
    by (intro replaceGroup_all) (simp_all add: innerHasChildren_children)
  have ne: "children parent \<noteq> [] \<Longrightarrow> newChildren \<noteq> []"
    unfolding newChildren_def by (rule replaceGroup_nonempty)
  have res: "n' = (if length newChildren = 1 \<and> isRoot then newChildren ! 0 else setChildren parent newChildren)"
    using assms(4) False by (auto simp: extendPartialChild_def Let_def qnode_def newChildren_def split: if_splits)
  show ?thesis
  proof (cases "length newChildren = 1 \<and> isRoot")
    case True
    then have "newChildren ! 0 \<in> set newChildren" by simp
    with all True res show ?thesis by (simp add: list_all_iff)
  next
    case False
    with res have "n' = setChildren parent newChildren" by (simp only: if_False)
    moreover have "kind parent = leafNode \<or> newChildren \<noteq> []"
      using assms(1) ne by (auto simp: innerHasChildren_iff [of parent])
    ultimately show ?thesis using all by (simp add: innerHasChildren_setChildren)
  qed
qed

lemma index_SomeD: "index xs i = Some x \<Longrightarrow> 0 \<le> i \<and> nat i < length xs \<and> x = xs ! nat i"
  by (auto simp: index_def split: if_splits)

lemma innerHasChildren_mergeQNodes:
  assumes "innerHasChildren parent" "mergeQNodes parent idx = Some n'"
  shows "innerHasChildren n'"
proof -
  from assms(2) obtain child where c: "index (children parent) idx = Some child"
    by (auto simp: mergeQNodes_def split: option.splits)
  then have i: "nat idx < length (children parent)" and ch: "child = children parent ! nat idx"
    by (auto dest: index_SomeD)
  have all: "list_all innerHasChildren (children parent)"
    using assms(1) by (rule innerHasChildren_children)
  then have wc: "innerHasChildren child" using i ch by (simp add: list_all_iff)
  show ?thesis
  proof (cases "kind child = qNode")
    case False
    with assms c show ?thesis by (simp add: mergeQNodes_def)
  next
    case True
    with wc have gne: "children child \<noteq> []" by (auto simp: innerHasChildren_iff [of child])
    from wc have gall: "list_all innerHasChildren (children child)" by (rule innerHasChildren_children)
    obtain gcs' where n': "n' = setChildren parent (take (nat idx) (children parent) @ gcs' @ drop (nat idx + 1) (children parent))"
      and g: "gcs' = children child \<or> gcs' = rev (children child)"
      using assms(2) c True by (auto simp: mergeQNodes_def Let_def split: if_splits)
    from g gne gall have "gcs' \<noteq> []" "list_all innerHasChildren gcs'" by auto
    moreover have "list_all innerHasChildren (take (nat idx) (children parent))"
      "list_all innerHasChildren (drop (nat idx + 1) (children parent))"
      using all by (auto simp: list_all_iff dest: in_set_takeD in_set_dropD)
    ultimately show ?thesis unfolding n' by (simp add: innerHasChildren_setChildren)
  qed
qed

lemma innerHasChildren_mergeLoop:
  "innerHasChildren n \<Longrightarrow> mergeLoop n idxs = Some n' \<Longrightarrow> innerHasChildren n'"
proof (induction idxs arbitrary: n)
  case Nil
  then show ?case by simp
next
  case (Cons idx rest)
  then show ?case
    by (auto split: option.splits if_splits dest: innerHasChildren_mergeQNodes)
qed

lemma innerHasChildren_pNodeRewrite:
  assumes "innerHasChildren n" "pNodeRewrite isRoot n = Some (ok, n')"
  shows "innerHasChildren n'"
proof -
  let ?fullCh = "filter (\<lambda>child. mark child = full) (children n)"
  let ?partialCh = "filter (\<lambda>child. mark child = partial) (children n)"
  have all: "list_all innerHasChildren (children n)" using assms(1) by (rule innerHasChildren_children)
  from assms(2) consider "n' = n" | "n' = groupChildren n ?fullCh pNode"
    | pc where "index ?partialCh 0 = Some pc" "extendPartialChild isRoot n pc ?fullCh = (ok, n')"
    by (auto simp: pNodeRewrite_def Let_def split: if_splits option.splits)
  then show ?thesis
  proof cases
    case 1
    with assms(1) show ?thesis by simp
  next
    case 2
    with assms(1) show ?thesis by (simp add: innerHasChildren_groupChildren)
  next
    case 3
    from 3(1) have "pc \<in> set ?partialCh" by (metis index_SomeD nth_mem)
    then have wpc: "innerHasChildren pc" using all by (simp add: list_all_iff)
    have wfull: "list_all innerHasChildren ?fullCh" using all by (rule list_all_filter)
    from assms(1) wpc wfull 3(2) show ?thesis by (rule innerHasChildren_extendPartialChild)
  qed
qed

lemma innerHasChildren_qNodeRewrite:
  assumes "innerHasChildren n" "qNodeRewrite n = Some (ok, n')"
  shows "innerHasChildren n'"
  using assms
  by (auto simp: qNodeRewrite_def Let_def split: if_splits dest: innerHasChildren_mergeLoop)

lemma innerHasChildren_reduce_all:
  "(innerHasChildren n \<longrightarrow> (\<forall>ok n'. reduce isRoot n = Some (ok, n') \<longrightarrow> innerHasChildren n'))"
  "(innerHasChildren n1 \<longrightarrow> (\<forall>ok n'. reducePNode isRoot1 n1 = Some (ok, n') \<longrightarrow> innerHasChildren n'))"
  "(innerHasChildren n2 \<longrightarrow> (\<forall>ok n'. reduceQNode n2 = Some (ok, n') \<longrightarrow> innerHasChildren n'))"
  "(innerHasChildren n3 \<longrightarrow> (\<forall>ok n'. reducePartialChildren n3 = Some (ok, n') \<longrightarrow> innerHasChildren n'))"
  "(list_all innerHasChildren cs \<longrightarrow> (\<forall>ok cs'. reducePartialLoop cs = Some (ok, cs') \<longrightarrow>
       list_all innerHasChildren cs' \<and> length cs' = length cs))"
proof (induction isRoot n and isRoot1 n1 and n2 and n3 and cs
       rule: reduce_reducePNode_reduceQNode_reducePartialChildren_reducePartialLoop.induct)
  case (1 isRoot n)
  then show ?case
    by (auto simp: reduce.simps [of isRoot n] split: if_splits nodeKind.splits)
next
  case (2 isRoot n)
  then show ?case
    by (auto simp: reducePNode.simps [of isRoot n] split: option.splits if_splits
        dest: innerHasChildren_pNodeRewrite)
next
  case (3 n)
  then show ?case
    by (auto simp: reduceQNode.simps [of n] split: option.splits if_splits
        dest: innerHasChildren_qNodeRewrite)
next
  case (4 n)
  show ?case
  proof (intro impI allI)
    fix ok n'
    assume wf: "innerHasChildren n" and r: "reducePartialChildren n = Some (ok, n')"
    from r obtain ok' cs' where l: "reducePartialLoop (children n) = Some (ok', cs')"
      and n': "n' = setChildren n cs' \<or> n' = setCounts (setChildren n cs')"
      by (auto simp: reducePartialChildren.simps [of n] split: option.splits if_splits)
    from 4 wf l have "list_all innerHasChildren cs'" "length cs' = length (children n)"
      by (auto dest: innerHasChildren_children)
    moreover from wf have "kind n = leafNode \<or> children n \<noteq> []"
      by (simp add: innerHasChildren_iff [of n])
    ultimately show "innerHasChildren n'" using n'
      by (auto simp: innerHasChildren_setChildren)
  qed
next
  case 5
  then show ?case by simp
next
  case (6 c cs)
  show ?case
  proof (intro impI allI)
    fix ok cs'
    assume wf: "list_all innerHasChildren (c # cs)" and r: "reducePartialLoop (c # cs) = Some (ok, cs')"
    show "list_all innerHasChildren cs' \<and> length cs' = length (c # cs)"
    proof (cases "mark c = partial")
      case True
      from r True obtain ok1 c' where c': "reduce False c = Some (ok1, c')"
        by (auto split: option.splits)
      from 6(1) [OF True] wf c' have wc: "innerHasChildren c'" by auto
      show ?thesis
      proof (cases ok1)
        case False
        with r True c' wf wc show ?thesis by auto
      next
        case ok1: True
        from r True c' ok1 obtain ok2 cs2 where l: "reducePartialLoop cs = Some (ok2, cs2)" and e: "cs' = c' # cs2"
          by (auto split: option.splits)
        from 6(2) [OF True c' refl] ok1 wf l have "list_all innerHasChildren cs2 \<and> length cs2 = length cs" by auto
        with e wc show ?thesis by simp
      qed
    next
      case False
      from r False obtain ok2 cs2 where l: "reducePartialLoop cs = Some (ok2, cs2)" and e: "cs' = c # cs2"
        by (auto split: option.splits)
      from 6(3) [OF False] wf l have "list_all innerHasChildren cs2 \<and> length cs2 = length cs" by auto
      with e wf show ?thesis by simp
    qed
  qed
qed

lemma wellFormed_NewPQTree: "NewPQTree n = Some t \<Longrightarrow> wellFormed t"
  by (auto simp: NewPQTree_def wellFormed_def newLeaf_def Let_def list_all_iff split: if_splits)

lemma wellFormed_Reduce:
  assumes "wellFormed t" "Reduce t c = Some (ok, t')"
  shows "wellFormed t'"
proof (cases "root t")
  case None
  with assms show ?thesis by (simp add: Reduce_def)
next
  case (Some r)
  with assms(1) have wf: "innerHasChildren r" by (simp add: wellFormed_def)
  show ?thesis
  proof (cases "length c \<le> 1 \<or> length c = length (leaves t)")
    case True
    with Some assms show ?thesis by (auto simp: Reduce_def)
  next
    case False
    from assms(2) Some False obtain r1 where m: "markConstraint (leaves t) c (clearMarks r) = Some r1"
      by (auto simp: Reduce_def split: option.splits)
    with wf have w2: "innerHasChildren (bubbleUp r1)"
      by (simp add: innerHasChildren_markConstraint)
    show ?thesis
    proof (cases "mark (bubbleUp r1) = empty")
      case True
      with assms(2) Some False m w2 show ?thesis
        by (auto simp: Reduce_def Let_def wellFormed_def)
    next
      case ne: False
      with assms(2) Some False m obtain r3 where "reduce True (bubbleUp r1) = Some (ok, r3)" and "t' = t\<lparr>root := Some r3\<rparr>"
        by (auto simp: Reduce_def Let_def split: option.splits)
      with w2 innerHasChildren_reduce_all(1) [of "bubbleUp r1" True] show ?thesis
        by (auto simp: wellFormed_def)
    qed
  qed
qed

subsection \<open>Elements outside the leaf range\<close>

lemma markConstraint_Some: "\<exists>r'. markConstraint ls c r = Some r'"
  by (induction c arbitrary: r) (auto simp: index_def)

lemma markConstraint_filter:
  "markConstraint ls c r = markConstraint ls (filter (\<lambda>e. 0 \<le> e \<and> e < int (length ls)) c) r"
  by (induction c arbitrary: r) (auto split: option.splits)

lemma markConstraint_outside:
  "list_all (\<lambda>e. e < 0 \<or> int (length ls) \<le> e) c \<Longrightarrow> markConstraint ls c r = Some r"
  by (induction c) auto

lemma clearMarks_bubbleUp: "clearMarks (bubbleUp r) = clearMarks r"
  by (induction r) (auto simp: Let_def)

lemma clearMarks_idem: "clearMarks (clearMarks r) = clearMarks r"
  by (induction r) auto

lemma bubbleUp_clear_empty:
  "innerHasChildren r \<Longrightarrow> mark (bubbleUp (clearMarks r)) = empty"
proof (induction r)
  case (PQNode k v cs m fc pc)
  show ?case
  proof (cases "k = leafNode")
    case True
    then show ?thesis by simp
  next
    case False
    with PQNode.prems have ne: "cs \<noteq> []" and all: "list_all innerHasChildren cs" by auto
    have "\<forall>c \<in> set cs. mark (bubbleUp (clearMarks c)) = empty"
      using PQNode.IH all by (auto simp: list_all_iff)
    then have f: "filter (\<lambda>c. mark c = full) (map (bubbleUp \<circ> clearMarks) cs) = []"
      and p: "filter (\<lambda>c. mark c = partial) (map (bubbleUp \<circ> clearMarks) cs) = []"
      by (auto simp: filter_empty_conv)
    show ?thesis using False ne f p by (simp add: Let_def countMark_def)
  qed
qed

lemma Reduce_outside:
  assumes "wellFormed t" and "list_all (\<lambda>e. e < 0 \<or> int (length (leaves t)) \<le> e) c"
  shows "\<exists>t'. Reduce t c = Some (True, t') \<and> leaves t' = leaves t
            \<and> map_option clearMarks (root t') = map_option clearMarks (root t)"
proof (cases "root t")
  case None
  then show ?thesis by (simp add: Reduce_def)
next
  case (Some r)
  with assms(1) have wf: "innerHasChildren r" by (simp add: wellFormed_def)
  show ?thesis
  proof (cases "length c \<le> 1 \<or> length c = length (leaves t)")
    case True
    with Some show ?thesis by (simp add: Reduce_def)
  next
    case False
    have m: "markConstraint (leaves t) c (clearMarks r) = Some (clearMarks r)"
      using assms(2) by (rule markConstraint_outside)
    have e: "mark (bubbleUp (clearMarks r)) = empty"
      using wf by (rule bubbleUp_clear_empty)
    have "Reduce t c = Some (True, t\<lparr>root := Some (bubbleUp (clearMarks r))\<rparr>)"
      using Some False m e by (simp add: Reduce_def Let_def)
    then show ?thesis using Some by (simp add: clearMarks_bubbleUp clearMarks_idem)
  qed
qed

subsection \<open>\<open>Reduce\<close> never faults\<close>

lemma mergeQNodes_total:
  "0 \<le> idx \<Longrightarrow> idx < int (length (children parent)) \<Longrightarrow> \<exists>n'. mergeQNodes parent idx = Some n'"
  by (simp add: mergeQNodes_def index_def Let_def)

lemma mergeQNodes_length:
  assumes "innerHasChildren parent" "mergeQNodes parent idx = Some n'"
  shows "length (children parent) \<le> length (children n')"
proof -
  from assms(2) obtain child where c: "index (children parent) idx = Some child"
    by (auto simp: mergeQNodes_def split: option.splits)
  then have i: "0 \<le> idx" "nat idx < length (children parent)" and ch: "child = children parent ! nat idx"
    by (auto dest: index_SomeD)
  show ?thesis
  proof (cases "kind child = qNode")
    case False
    with assms(2) c show ?thesis by (simp add: mergeQNodes_def)
  next
    case True
    have "list_all innerHasChildren (children parent)"
      using assms(1) by (rule innerHasChildren_children)
    with i ch have "innerHasChildren child" by (simp add: list_all_length)
    with True have ne: "children child \<noteq> []" by (simp add: innerHasChildren_iff [of child])
    from assms(2) c True obtain gcs' where
      n': "n' = setChildren parent (take (nat idx) (children parent) @ gcs' @ drop (nat idx + 1) (children parent))"
      and g: "gcs' = rev (children child) \<or> gcs' = children child"
      by (auto simp: mergeQNodes_def Let_def split: if_splits)
    from g ne have "length gcs' \<ge> 1" by (cases "children child") auto
    with i n' show ?thesis by simp
  qed
qed

lemma mergeLoop_total:
  "innerHasChildren n \<Longrightarrow> \<forall>idx \<in> set idxs. 0 \<le> idx \<and> idx < int (length (children n))
     \<Longrightarrow> \<exists>n'. mergeLoop n idxs = Some n'"
proof (induction idxs arbitrary: n)
  case Nil
  then show ?case by simp
next
  case (Cons idx rest)
  from Cons.prems(2) have i: "0 \<le> idx" "idx < int (length (children n))" by simp_all
  then obtain child where c: "index (children n) idx = Some child" by (auto simp: index_def)
  show ?case
  proof (cases "kind child = qNode")
    case False
    with c Cons.IH [OF Cons.prems(1)] Cons.prems(2) show ?thesis by simp
  next
    case True
    from mergeQNodes_total [OF i] obtain n1 where m: "mergeQNodes n idx = Some n1" by blast
    from innerHasChildren_mergeQNodes [OF Cons.prems(1) m] have w: "innerHasChildren n1" .
    from mergeQNodes_length [OF Cons.prems(1) m] Cons.prems(2)
    have "\<forall>idx \<in> set rest. 0 \<le> idx \<and> idx < int (length (children n1))" by auto
    from Cons.IH [OF w this] c True m show ?thesis by simp
  qed
qed

lemma qNodeRewrite_total:
  assumes "innerHasChildren n"
  shows "\<exists>res. qNodeRewrite n = Some res"
proof -
  have "\<forall>idx \<in> set (indicesOf partial (children n)). 0 \<le> idx \<and> idx < int (length (children n))"
    by (auto simp: indicesOf_def)
  from mergeLoop_total [OF assms this] show ?thesis
    by (auto simp: qNodeRewrite_def Let_def)
qed

lemma pNodeRewrite_total: "\<exists>res. pNodeRewrite isRoot n = Some res"
proof -
  let ?p = "filter (\<lambda>child. mark child = partial) (children n)"
  have "length ?p \<noteq> 0 \<Longrightarrow> \<exists>pc. index ?p 0 = Some pc" by (simp add: index_def)
  then show ?thesis
    by (cases "length ?p = 0") (auto simp: pNodeRewrite_def Let_def)
qed

lemma reduce_total:
  "(innerHasChildren n \<longrightarrow> (\<exists>res. reduce isRoot n = Some res))"
  "(innerHasChildren n1 \<longrightarrow> (\<exists>res. reducePNode isRoot1 n1 = Some res))"
  "(innerHasChildren n2 \<longrightarrow> (\<exists>res. reduceQNode n2 = Some res))"
  "(innerHasChildren n3 \<longrightarrow> (\<exists>res. reducePartialChildren n3 = Some res))"
  "(list_all innerHasChildren cs \<longrightarrow> (\<exists>res. reducePartialLoop cs = Some res))"
proof (induction isRoot n and isRoot1 n1 and n2 and n3 and cs
       rule: reduce_reducePNode_reduceQNode_reducePartialChildren_reducePartialLoop.induct)
  case (1 isRoot n)
  then show ?case
    by (auto simp: reduce.simps [of isRoot n] split: if_splits nodeKind.splits)
next
  case (2 isRoot n)
  show ?case
  proof
    assume wf: "innerHasChildren n"
    with 2 obtain ok n' where r: "reducePartialChildren n = Some (ok, n')" by auto
    from pNodeRewrite_total [of isRoot n'] r
    show "\<exists>res. reducePNode isRoot n = Some res"
      by (auto simp: reducePNode.simps [of isRoot n])
  qed
next
  case (3 n)
  show ?case
  proof
    assume wf: "innerHasChildren n"
    with 3 obtain ok n' where r: "reducePartialChildren n = Some (ok, n')" by auto
    with wf innerHasChildren_reduce_all(4) [of n] have "innerHasChildren n'" by blast
    from qNodeRewrite_total [OF this] r
    show "\<exists>res. reduceQNode n = Some res"
      by (auto simp: reduceQNode.simps [of n])
  qed
next
  case (4 n)
  show ?case
  proof
    assume wf: "innerHasChildren n"
    then have "list_all innerHasChildren (children n)" by (rule innerHasChildren_children)
    with 4 obtain ok cs' where "reducePartialLoop (children n) = Some (ok, cs')" by auto
    then show "\<exists>res. reducePartialChildren n = Some res"
      by (auto simp: reducePartialChildren.simps [of n])
  qed
next
  case 5
  then show ?case by auto
next
  case (6 c cs)
  show ?case
  proof
    assume wf: "list_all innerHasChildren (c # cs)"
    show "\<exists>res. reducePartialLoop (c # cs) = Some res"
    proof (cases "mark c = partial")
      case True
      from 6(1) [OF True] wf obtain ok1 c' where c': "reduce False c = Some (ok1, c')" by auto
      show ?thesis
      proof (cases ok1)
        case False
        with True c' show ?thesis by auto
      next
        case ok1: True
        from 6(2) [OF True c' refl] ok1 wf obtain res where "reducePartialLoop cs = Some res" by auto
        with True c' ok1 show ?thesis by (cases res) auto
      qed
    next
      case False
      from 6(3) [OF False] wf obtain res where "reducePartialLoop cs = Some res" by auto
      with False show ?thesis by (cases res) auto
    qed
  qed
qed

lemma Reduce_total:
  assumes "wellFormed t"
  shows "\<exists>res. Reduce t c = Some res"
proof (cases "root t")
  case None
  then show ?thesis by (auto simp: Reduce_def)
next
  case (Some r)
  with assms have wf: "innerHasChildren r" by (simp add: wellFormed_def)
  from markConstraint_Some [of "leaves t" c "clearMarks r"] obtain r1 where
    m: "markConstraint (leaves t) c (clearMarks r) = Some r1" by blast
  with wf have "innerHasChildren (bubbleUp r1)" by (simp add: innerHasChildren_markConstraint)
  with reduce_total(1) [of "bubbleUp r1" True] obtain res where "reduce True (bubbleUp r1) = Some res"
    by blast
  with Some m show ?thesis by (cases res) (auto simp: Reduce_def Let_def)
qed

lemma Reduce_same_inside:
  assumes f: "filter (\<lambda>e. 0 \<le> e \<and> e < int (length (leaves t))) c'
            = filter (\<lambda>e. 0 \<le> e \<and> e < int (length (leaves t))) c"
    and s: "(length c' \<le> 1 \<or> length c' = length (leaves t)) \<longleftrightarrow>
            (length c \<le> 1 \<or> length c = length (leaves t))"
  shows "Reduce t c' = Reduce t c"
proof (cases "root t")
  case None
  then show ?thesis by (simp add: Reduce_def)
next
  case (Some r)
  have m: "markConstraint (leaves t) c' (clearMarks r) = markConstraint (leaves t) c (clearMarks r)"
    using markConstraint_filter [of "leaves t" c' "clearMarks r"]
      markConstraint_filter [of "leaves t" c "clearMarks r"] f
    by simp
  show ?thesis
  proof (cases "length c \<le> 1 \<or> length c = length (leaves t)")
    case True
    with s have "length c' \<le> 1 \<or> length c' = length (leaves t)" by simp
    with True Some show ?thesis by (simp add: Reduce_def)
  next
    case False
    with s have "\<not> (length c' \<le> 1 \<or> length c' = length (leaves t))" by simp
    with False Some m show ?thesis by (simp add: Reduce_def)
  qed
qed

text \<open>
  C10, amended: on a tree whose inner nodes all have a child (every tree that \<open>NewPQTree\<close>
  and \<open>Reduce\<close> build), \<open>Reduce\<close> returns for every constraint, whatever its elements.
  The marking skips the elements outside \<open>0 .. n-1\<close>, but the two length tests of the
  first line count them: two constraints with the same elements inside the range, in the same
  order, have the same result exactly when both or neither pass the test
  \<open>len(constraint) <= 1 || len(constraint) == len(t.leaves)\<close>. A constraint with no element
  inside the range returns true and the tree keeps its leaves and its structure (kinds, values
  and children); its marks are reset.
\<close>

theorem Reduce_outside_elements:
  assumes "wellFormed t"
  shows "(\<exists>res. Reduce t c = Some res) \<and>
   (\<forall>c'. filter (\<lambda>e. 0 \<le> e \<and> e < int (length (leaves t))) c'
           = filter (\<lambda>e. 0 \<le> e \<and> e < int (length (leaves t))) c \<and>
         ((length c' \<le> 1 \<or> length c' = length (leaves t)) \<longleftrightarrow>
          (length c \<le> 1 \<or> length c = length (leaves t)))
         \<longrightarrow> Reduce t c' = Reduce t c) \<and>
   (list_all (\<lambda>e. e < 0 \<or> int (length (leaves t)) \<le> e) c \<longrightarrow>
      (\<exists>t'. Reduce t c = Some (True, t') \<and> leaves t' = leaves t
            \<and> map_option clearMarks (root t') = map_option clearMarks (root t)))"
  using Reduce_total [OF assms, of c] Reduce_same_inside [of t _ c] Reduce_outside [OF assms, of c]
  by blast

theorem Reduce_outside_elements_witness:
  "wellFormed \<lparr>root = Some (PQNode pNode 0 [newLeaf 0, newLeaf 1, newLeaf 2, newLeaf 3] unmarked 0 0), leaves = [0, 1, 2, 3]\<rparr> \<and>
   (\<exists>res. Reduce \<lparr>root = Some (PQNode pNode 0 [newLeaf 0, newLeaf 1, newLeaf 2, newLeaf 3] unmarked 0 0), leaves = [0, 1, 2, 3]\<rparr> [0, 7, 1] = Some res) \<and>
   Reduce \<lparr>root = Some (PQNode pNode 0 [newLeaf 0, newLeaf 1, newLeaf 2, newLeaf 3] unmarked 0 0), leaves = [0, 1, 2, 3]\<rparr> [- 1, 0, 1, 9, 9]
     = Reduce \<lparr>root = Some (PQNode pNode 0 [newLeaf 0, newLeaf 1, newLeaf 2, newLeaf 3] unmarked 0 0), leaves = [0, 1, 2, 3]\<rparr> [0, 7, 1] \<and>
   list_all (\<lambda>e. e < 0 \<or> int (length [0, 1, 2, 3 :: int]) \<le> e) [7, - 1] \<and>
   (\<exists>t'. Reduce \<lparr>root = Some (PQNode pNode 0 [newLeaf 0, newLeaf 1, newLeaf 2, newLeaf 3] unmarked 0 0), leaves = [0, 1, 2, 3]\<rparr> [7, - 1]
            = Some (True, t') \<and> leaves t' = [0, 1, 2, 3]
        \<and> map_option clearMarks (root t')
            = Some (PQNode pNode 0 [newLeaf 0, newLeaf 1, newLeaf 2, newLeaf 3] unmarked 0 0))"
proof -
  let ?t = "\<lparr>root = Some (PQNode pNode 0 [newLeaf 0, newLeaf 1, newLeaf 2, newLeaf 3] unmarked 0 0), leaves = [0, 1, 2, 3]\<rparr>"
  have wf: "wellFormed ?t" by (simp add: wellFormed_def newLeaf_def)
  note first = Reduce_outside_elements [OF wf, of "[0, 7, 1]"]
  from first have total: "\<exists>res. Reduce ?t [0, 7, 1] = Some res" by (rule conjunct1)
  from first have "\<forall>c'. filter (\<lambda>e. 0 \<le> e \<and> e < int (length (leaves ?t))) c'
           = filter (\<lambda>e. 0 \<le> e \<and> e < int (length (leaves ?t))) [0, 7, 1] \<and>
         ((length c' \<le> 1 \<or> length c' = length (leaves ?t)) \<longleftrightarrow>
          (length [0, 7, 1 :: int] \<le> 1 \<or> length [0, 7, 1 :: int] = length (leaves ?t)))
         \<longrightarrow> Reduce ?t c' = Reduce ?t [0, 7, 1]"
    by (rule conjunct1 [OF conjunct2])
  then have "filter (\<lambda>e. 0 \<le> e \<and> e < int (length (leaves ?t))) [- 1, 0, 1, 9, 9]
           = filter (\<lambda>e. 0 \<le> e \<and> e < int (length (leaves ?t))) [0, 7, 1] \<and>
         ((length [- 1, 0, 1, 9, 9 :: int] \<le> 1 \<or> length [- 1, 0, 1, 9, 9 :: int] = length (leaves ?t)) \<longleftrightarrow>
          (length [0, 7, 1 :: int] \<le> 1 \<or> length [0, 7, 1 :: int] = length (leaves ?t)))
         \<longrightarrow> Reduce ?t [- 1, 0, 1, 9, 9] = Reduce ?t [0, 7, 1]"
    by (rule spec)
  moreover have "filter (\<lambda>e. 0 \<le> e \<and> e < int (length (leaves ?t))) [- 1, 0, 1, 9, 9]
           = filter (\<lambda>e. 0 \<le> e \<and> e < int (length (leaves ?t))) [0, 7, 1] \<and>
         ((length [- 1, 0, 1, 9, 9 :: int] \<le> 1 \<or> length [- 1, 0, 1, 9, 9 :: int] = length (leaves ?t)) \<longleftrightarrow>
          (length [0, 7, 1 :: int] \<le> 1 \<or> length [0, 7, 1 :: int] = length (leaves ?t)))"
    by simp
  ultimately have eq: "Reduce ?t [- 1, 0, 1, 9, 9] = Reduce ?t [0, 7, 1]" by (rule mp)
  have la: "list_all (\<lambda>e. e < 0 \<or> int (length [0, 1, 2, 3 :: int]) \<le> e) [7, - 1]" by simp
  have la': "list_all (\<lambda>e. e < 0 \<or> int (length (leaves ?t)) \<le> e) [7, - 1]" by simp
  from Reduce_outside_elements [OF wf, of "[7, - 1]"]
  have "list_all (\<lambda>e. e < 0 \<or> int (length (leaves ?t)) \<le> e) [7, - 1] \<longrightarrow>
      (\<exists>t'. Reduce ?t [7, - 1] = Some (True, t') \<and> leaves t' = leaves ?t
            \<and> map_option clearMarks (root t') = map_option clearMarks (root ?t))"
    by (rule conjunct2 [OF conjunct2])
  then have "\<exists>t'. Reduce ?t [7, - 1] = Some (True, t') \<and> leaves t' = leaves ?t
            \<and> map_option clearMarks (root t') = map_option clearMarks (root ?t)"
    using la' by (rule mp)
  moreover have "leaves ?t = [0, 1, 2, 3]" by simp
  moreover have "map_option clearMarks (root ?t)
      = Some (PQNode pNode 0 [newLeaf 0, newLeaf 1, newLeaf 2, newLeaf 3] unmarked 0 0)"
    by (simp add: newLeaf_def)
  ultimately have out: "\<exists>t'. Reduce ?t [7, - 1] = Some (True, t') \<and> leaves t' = [0, 1, 2, 3]
        \<and> map_option clearMarks (root t')
            = Some (PQNode pNode 0 [newLeaf 0, newLeaf 1, newLeaf 2, newLeaf 3] unmarked 0 0)"
    by (simp only:)
  from wf total eq la out show ?thesis by (intro conjI)
qed

text \<open>
  C10 as stated fails: \<open>Reduce\<close> does not ignore the elements outside the range. On a
  tree of three leaves \<open>Reduce([0, 9, 1])\<close> has the length of the leaf table and does
  nothing (all six orderings remain), while \<open>Reduce([0, 1])\<close> keeps 0 and 1 adjacent (four
  orderings remain). On a tree of four leaves, after \<open>Reduce([0, 1])\<close> and
  \<open>Reduce([1, 2])\<close>, \<open>Reduce([0, 2])\<close> returns false and \<open>Reduce([0, 2, -1, 9])\<close>
  returns true. And a constraint with no element inside the range changes the marks:
  after \<open>Reduce([7, -1])\<close> every node of the tree of three leaves is marked empty.
\<close>

theorem Reduce_counts_outside:
  "map_option (\<lambda>(ok, t). (ok, Enumerate t 0)) (constructAndReduce 3 [[0, 9, 1]])
     = Some (True, [[0, 1, 2], [1, 0, 2], [2, 0, 1], [0, 2, 1], [1, 2, 0], [2, 1, 0]]) \<and>
   map_option (\<lambda>(ok, t). (ok, Enumerate t 0)) (constructAndReduce 3 [[0, 1]])
     = Some (True, [[0, 1, 2], [1, 0, 2], [2, 0, 1], [2, 1, 0]]) \<and>
   map_option fst (constructAndReduce 4 [[0, 1], [1, 2], [0, 2]]) = Some False \<and>
   map_option fst (constructAndReduce 4 [[0, 1], [1, 2], [0, 2, - 1, 9]]) = Some True \<and>
   map_option (\<lambda>(ok, t). (ok, root t)) (constructAndReduce 3 [[7, - 1]])
     = Some (True, Some (PQNode pNode 0
         [PQNode leafNode 0 [] empty 0 0, PQNode leafNode 1 [] empty 0 0, PQNode leafNode 2 [] empty 0 0]
         empty 0 0)) \<and>
   map_option root (NewPQTree 3)
     = Some (Some (PQNode pNode 0
         [PQNode leafNode 0 [] unmarked 0 0, PQNode leafNode 1 [] unmarked 0 0,
          PQNode leafNode 2 [] unmarked 0 0]
         unmarked 0 0))"
  by code_simp

text \<open>
  C1 fails on the code: on a tree of four leaves the calls \<open>Reduce([0, 1])\<close>,
  \<open>Reduce([1, 2])\<close> and \<open>Reduce([0, 3])\<close> all return true, and \<open>Enumerate\<close> then yields
  the orderings 1 2 0 3 and 3 0 2 1, in which 0 and 1 are not adjacent.
\<close>

theorem Reduce_loses_contiguity:
  "map_option (\<lambda>(ok, t). (ok, Enumerate t 0)) (constructAndReduce 4 [[0, 1], [1, 2], [0, 3]])
     = Some (True, [[1, 2, 0, 3], [3, 0, 2, 1]]) \<and>
   \<not> contiguous [0, 1] [1, 2, 0, 3]"
  by code_simp

text \<open>
  C6 fails on the code: on a tree of five leaves, after \<open>Reduce([0, 1, 2])\<close> and
  \<open>Reduce([1, 2, 3])\<close>, a first \<open>Reduce([2, 4])\<close> returns true and a second one returns
  false.
\<close>

theorem Reduce_not_idempotent:
  "map_option fst (constructAndReduce 5 [[0, 1, 2], [1, 2, 3], [2, 4]]) = Some True \<and>
   map_option fst (constructAndReduce 5 [[0, 1, 2], [1, 2, 3], [2, 4], [2, 4]]) = Some False"
  by code_simp

section \<open>Properties of the optimal search\<close>

text \<open>C7: the candidate limit is 10000 for at most three rows, and otherwise the
  integer quotient 10000/numRows clamped to the interval [100, 1000].\<close>

theorem calcCandidateLimit_clamp:
  "calcCandidateLimit numRows =
     (if numRows \<le> 3 then 10000
      else if 10000 div numRows < 100 then 100
      else if 1000 < 10000 div numRows then 1000
      else 10000 div numRows)"
  by (simp add: calcCandidateLimit_def maxCandidatesBase_def goDiv_def Let_def)

lemma updateBestStep_le: "updateBestStep c s = (c', s') \<Longrightarrow> bestScore s' \<le> bestScore s"
  by (auto split: updateBestPhase.splits if_splits)

lemma updateBestStep_write:
  "updateBestStep c s = (c', s') \<Longrightarrow> bestScore s' \<noteq> bestScore s
     \<Longrightarrow> bestScore s' = callScore c \<and> callScore c < bestScore s"
  by (auto split: updateBestPhase.splits if_splits)

lemma interleave_le: "interleave x y \<Longrightarrow> bestScore (fst y) \<le> bestScore (fst x)"
  by (induction rule: interleave.induct)
     (auto dest: updateBestStep_le simp del: updateBestStep.simps)

lemma interleave_star_le: "interleave\<^sup>*\<^sup>* x y \<Longrightarrow> bestScore (fst y) \<le> bestScore (fst x)"
  by (induction rule: rtranclp_induct) (auto dest: interleave_le)

text \<open>
  C9: along every interleaving of calls of \<open>updateBest\<close> the value of \<open>bestScore\<close>
  never grows, and an action that changes it stores the score of its call, which is
  strictly smaller than the value replaced.
\<close>

theorem updateBest_monotonic:
  "(interleave\<^sup>*\<^sup>* (s, cs) (s', cs') \<longrightarrow> bestScore s' \<le> bestScore s) \<and>
   (interleave (s, cs) (s', cs') \<longrightarrow> bestScore s' \<noteq> bestScore s \<longrightarrow>
      (\<exists>i < length cs. bestScore s' = callScore (cs ! i) \<and> callScore (cs ! i) < bestScore s))"
proof (intro conjI impI)
  assume "interleave\<^sup>*\<^sup>* (s, cs) (s', cs')"
  from interleave_star_le [OF this] show "bestScore s' \<le> bestScore s" by simp
next
  assume "interleave (s, cs) (s', cs')" and ne: "bestScore s' \<noteq> bestScore s"
  then obtain i c' where i: "i < length cs" and st: "updateBestStep (cs ! i) s = (c', s')"
    by (auto elim: interleave.cases)
  from updateBestStep_write [OF st ne] i
  show "\<exists>i < length cs. bestScore s' = callScore (cs ! i) \<and> callScore (cs ! i) < bestScore s" by blast
qed

theorem updateBest_monotonic_witness:
  "interleave
     (\<lparr>bestScore = 5, bestPath = [], explored = 1, cancelled = False\<rparr>,
      [\<lparr>callPath = [Some [1, 0]], callScore = 3, callPhase = Loaded 5\<rparr>])
     (\<lparr>bestScore = 3, bestPath = [], explored = 1, cancelled = False\<rparr>,
      [\<lparr>callPath = [Some [1, 0]], callScore = 3, callPhase = Publish\<rparr>]) \<and>
   bestScore \<lparr>bestScore = 3, bestPath = [], explored = 1, cancelled = False\<rparr>
     \<le> bestScore \<lparr>bestScore = 5, bestPath = [], explored = 1, cancelled = False\<rparr> \<and>
   (\<exists>i < length [\<lparr>callPath = [Some [1, 0]], callScore = 3, callPhase = Loaded 5\<rparr>].
      callScore ([\<lparr>callPath = [Some [1, 0]], callScore = 3, callPhase = Loaded 5\<rparr>] ! i) = 3)"
proof -
  let ?s = "\<lparr>bestScore = 5, bestPath = [], explored = 1, cancelled = False\<rparr>"
  let ?s' = "\<lparr>bestScore = 3, bestPath = [], explored = 1, cancelled = False\<rparr>"
  let ?c = "\<lparr>callPath = [Some [1, 0]], callScore = 3, callPhase = Loaded 5\<rparr>"
  let ?c' = "\<lparr>callPath = [Some [1, 0]], callScore = 3, callPhase = Publish\<rparr>"
  have "interleave (?s, [?c]) (?s', [?c][0 := ?c'])"
    by (rule interleave.step) simp_all
  then have i: "interleave (?s, [?c]) (?s', [?c'])" by simp
  then have r: "interleave\<^sup>*\<^sup>* (?s, [?c]) (?s', [?c'])" by (rule r_into_rtranclp)
  from updateBest_monotonic [of ?s "[?c]" ?s' "[?c']"] i r show ?thesis by simp
qed

lemma Barycentric_OrderRows_nil:
  "Barycentric_OrderRows bPasses g = nilMap \<longleftrightarrow> length (RowIDs g) = 0"
  by (simp add: Barycentric_OrderRows_def Let_def)

text \<open>
  C8 (as amended): for a graph with zero rows \<open>OrderRows\<close> returns the nil map, and for a
  graph with at least one row it never returns nil.
\<close>

theorem OrderRows_nil_iff:
  "(length (RowIDs g) = 0 \<longrightarrow> OrderRows g final = Some nilMap) \<and>
   (length (RowIDs g) \<noteq> 0 \<longrightarrow> OrderRows g final \<noteq> Some nilMap)"
  by (auto simp: OrderRows_def Let_def Barycentric_OrderRows_nil toStringOrder_def
      split: option.splits)

theorem OrderRows_nil_iff_witness:
  "length (RowIDs emptyDAG) = 0 \<and> OrderRows emptyDAG [] = Some nilMap \<and>
   length (RowIDs singleDAG) \<noteq> 0 \<and> OrderRows singleDAG [] \<noteq> Some nilMap"
  using OrderRows_nil_iff [of emptyDAG "[]"] OrderRows_nil_iff [of singleDAG "[]"]
  by (simp add: emptyDAG_def singleDAG_def)

text \<open>C8 as stated fails on the graph without rows: the result is the nil map, not an
  allocated empty one.\<close>

theorem OrderRows_empty_graph_nil:
  "OrderRows emptyDAG [] = Some nilMap \<and> OrderRows emptyDAG [] \<noteq> Some (goMap Map.empty)"
  by (simp add: OrderRows_def emptyDAG_def)

section \<open>Reductions keep the leaves of a tree\<close>

lemma leafMs_simps [simp]:
  "leafMs [] = {#}" "leafMs (c # cs) = mset (leavesOf c) + leafMs cs"
  "leafMs (xs @ ys) = leafMs xs + leafMs ys" "leafMs (rev xs) = leafMs xs"
  by (simp_all add: leafMs_def) (induction xs, auto)

lemma leafMs_sum: "leafMs xs = (\<Sum>c \<in># mset xs. mset (leavesOf c))"
  by (induction xs) auto

lemma leafMs_mset: "mset xs = mset ys \<Longrightarrow> leafMs xs = leafMs ys"
  by (simp add: leafMs_sum)

lemma leavesOf_iff:
  "leavesOf n = (if kind n = leafNode then [val n] else concat (map leavesOf (children n)))"
  by (cases n) simp

lemma mset_leavesOf: "kind n \<noteq> leafNode \<Longrightarrow> mset (leavesOf n) = leafMs (children n)"
  by (cases n) (simp add: leafMs_def)

lemma leafOK_iff:
  "leafOK n \<longleftrightarrow> (kind n \<noteq> leafNode \<or> (children n = [] \<and> mark n \<noteq> partial)) \<and> list_all leafOK (children n)"
  by (cases n) simp

lemma leafOK_children: "leafOK n \<Longrightarrow> list_all leafOK (children n)"
  by (simp add: leafOK_iff [of n])

lemma leafOK_nonleaf: "leafOK n \<Longrightarrow> children n \<noteq> [] \<or> mark n = partial \<Longrightarrow> kind n \<noteq> leafNode"
  by (auto simp: leafOK_iff [of n])

lemma leavesOf_clearMarks [simp]: "leavesOf (clearMarks n) = leavesOf n"
  by (induction n) (auto intro: arg_cong [where f = concat])

lemma leavesOf_setLeafFull [simp]: "leavesOf (setLeafFull v n) = leavesOf n"
  by (induction n) (auto intro: arg_cong [where f = concat])

lemma leavesOf_bubbleUp [simp]: "leavesOf (bubbleUp n) = leavesOf n"
  by (induction n) (auto simp: Let_def intro: arg_cong [where f = concat])

lemma leavesOf_markConstraint:
  "markConstraint ls c r = Some r' \<Longrightarrow> leavesOf r' = leavesOf r"
  by (induction c arbitrary: r) (auto split: if_splits option.splits)

lemma leafOK_clearMarks [simp]: "leafOK n \<Longrightarrow> leafOK (clearMarks n)"
  by (induction n) (auto simp: list_all_iff)

lemma leafOK_setLeafFull [simp]: "leafOK n \<Longrightarrow> leafOK (setLeafFull v n)"
  by (induction n) (auto simp: list_all_iff)

lemma leafOK_bubbleUp [simp]: "leafOK n \<Longrightarrow> leafOK (bubbleUp n)"
  by (induction n) (auto simp: list_all_iff Let_def)

lemma leafOK_markConstraint:
  "markConstraint ls c r = Some r' \<Longrightarrow> leafOK r \<Longrightarrow> leafOK r'"
  by (induction c arbitrary: r) (auto split: if_splits option.splits)

lemma leafOK_setChildren:
  "leafOK (setChildren n cs) \<longleftrightarrow> (kind n \<noteq> leafNode \<or> (cs = [] \<and> mark n \<noteq> partial)) \<and> list_all leafOK cs"
  by (cases n) simp

lemma leafOK_setCounts [simp]: "leafOK (setCounts n) = leafOK n"
  by (cases n) simp

lemma leavesOf_setCounts [simp]: "leavesOf (setCounts n) = leavesOf n"
  by (cases n) simp

lemma mset_leavesOf_setChildren:
  "kind n \<noteq> leafNode \<Longrightarrow> mset (leavesOf (setChildren n cs)) = leafMs cs"
  by (cases n) (simp add: leafMs_def)

lemma leavesOf_setChildren_leaf:
  "kind n = leafNode \<Longrightarrow> leavesOf (setChildren n cs) = leavesOf n"
  by (cases n) simp

lemma leafMs_replaceGroup:
  "leafMs (replaceGroup f node b cs) =
     leafMs (filter (\<lambda>c. \<not> f c) cs) + (if \<not> b \<and> (\<exists>c \<in> set cs. f c) then mset (leavesOf node) else {#})"
  by (induction cs arbitrary: b) auto

lemma leafMs_filter_split: "leafMs cs = leafMs (filter f cs) + leafMs (filter (\<lambda>c. \<not> f c) cs)"
  by (induction cs) auto

lemma leafMs_replaceGroup_eq:
  assumes "\<exists>c \<in> set cs. f c" "mset (leavesOf node) = leafMs (filter f cs)"
  shows "leafMs (replaceGroup f node False cs) = leafMs cs"
  using assms by (simp add: leafMs_replaceGroup leafMs_filter_split [of cs f])

lemma list_all_replaceGroup:
  "list_all P cs \<Longrightarrow> P node \<Longrightarrow> list_all P (replaceGroup f node b cs)"
  by (induction cs arbitrary: b) auto

lemma filter_mem_filter: "filter (\<lambda>c. c \<in> set (filter P cs)) cs = filter P cs"
  by (rule filter_cong) auto

lemma leaves_groupChildren:
  assumes "leafOK n" "length (filter (\<lambda>c. mark c = full) (children n)) > 1"
  shows "leafOK (groupChildren n (filter (\<lambda>c. mark c = full) (children n)) pNode) \<and>
         mset (leavesOf (groupChildren n (filter (\<lambda>c. mark c = full) (children n)) pNode))
           = mset (leavesOf n)"
proof -
  let ?cs = "children n"
  let ?grp = "filter (\<lambda>c. mark c = full) ?cs"
  let ?node = "PQNode pNode 0 ?grp (mark (?grp ! 0)) 0 0"
  let ?new = "replaceGroup (\<lambda>child. child \<in> set ?grp) ?node False ?cs"
  from assms(2) have ne: "?grp \<noteq> []" by auto
  then have cne: "?cs \<noteq> []" by auto
  with assms(1) have nl: "kind n \<noteq> leafNode" by (rule_tac leafOK_nonleaf) auto
  have all: "list_all leafOK ?cs" using assms(1) by (rule leafOK_children)
  have g: "groupChildren n ?grp pNode = setChildren n ?new"
    using assms(2) by (simp add: groupChildren_def Let_def)
  have nodeOK: "leafOK ?node" using all by (simp add: list_all_iff)
  have ex: "\<exists>c \<in> set ?cs. c \<in> set ?grp"
  proof -
    from ne obtain x where "x \<in> set ?grp" by (cases ?grp) auto
    then show ?thesis by auto
  qed
  have fm: "filter (\<lambda>c. c \<in> set ?grp) ?cs = ?grp" by (rule filter_mem_filter)
  have "mset (leavesOf ?node) = leafMs ?grp" by (simp add: leafMs_def)
  then have "mset (leavesOf ?node) = leafMs (filter (\<lambda>c. c \<in> set ?grp) ?cs)"
    by (simp only: fm)
  with ex have "leafMs ?new = leafMs ?cs" by (rule leafMs_replaceGroup_eq)
  moreover have "list_all leafOK ?new" using all nodeOK by (rule list_all_replaceGroup)
  ultimately show ?thesis using nl g
    by (simp add: leafOK_setChildren mset_leavesOf_setChildren mset_leavesOf)
qed

lemma mset_filter_disj:
  "(\<And>x. \<not> (P x \<and> Q x)) \<Longrightarrow>
     mset (filter (\<lambda>c. P c \<or> Q c) xs) = mset (filter P xs) + mset (filter Q xs)"
  by (induction xs) auto

lemma replaceGroup_cong:
  "(\<And>c. c \<in> set cs \<Longrightarrow> f c = f' c) \<Longrightarrow> replaceGroup f node b cs = replaceGroup f' node b cs"
  by (induction cs arbitrary: b) auto

lemma leaves_extendPartialChild:
  assumes ok: "leafOK n"
    and pc: "filter (\<lambda>c. mark c = partial) (children n) = [pc]"
    and full: "filter (\<lambda>c. mark c = full) (children n) \<noteq> []"
    and res: "extendPartialChild isRoot n pc (filter (\<lambda>c. mark c = full) (children n)) = (b, n')"
  shows "leafOK n' \<and> mset (leavesOf n') = mset (leavesOf n)"
proof -
  let ?cs = "children n"
  let ?fullCh = "filter (\<lambda>c. mark c = full) ?cs"
  let ?f = "\<lambda>child. child = pc \<or> child \<in> set ?fullCh"
  let ?g = "\<lambda>c. mark c = partial \<or> mark c = full"
  let ?chs = "filter (\<lambda>child. mark child \<noteq> full) (children pc) @ filter (\<lambda>child. mark child = full) (children pc) @ ?fullCh"
  let ?qnode = "PQNode qNode 0 ?chs partial 0 0"
  let ?new = "replaceGroup ?f ?qnode False ?cs"
  have all: "list_all leafOK ?cs" using ok by (rule leafOK_children)
  from full have cne: "?cs \<noteq> []" by auto
  with ok have nl: "kind n \<noteq> leafNode" by (rule_tac leafOK_nonleaf) auto
  have "pc \<in> set (filter (\<lambda>c. mark c = partial) ?cs)" using pc by simp
  then have pcin: "pc \<in> set ?cs" and pcm: "mark pc = partial" by simp_all
  with all have pcok: "leafOK pc" by (simp add: list_all_iff)
  with pcm have pcnl: "kind pc \<noteq> leafNode" by (rule_tac leafOK_nonleaf) auto
  have fg: "\<And>c. c \<in> set ?cs \<Longrightarrow> ?f c = ?g c"
  proof -
    fix c assume c: "c \<in> set ?cs"
    have "mark c = partial \<Longrightarrow> c = pc"
    proof -
      assume "mark c = partial"
      with c have "c \<in> set (filter (\<lambda>c. mark c = partial) ?cs)" by simp
      with pc show "c = pc" by simp
    qed
    with c pcm show "?f c = ?g c" by auto
  qed
  have new: "?new = replaceGroup ?g ?qnode False ?cs" using fg by (rule replaceGroup_cong)
  have "mset (filter ?g ?cs) = mset (filter (\<lambda>c. mark c = partial) ?cs) + mset ?fullCh"
    by (rule mset_filter_disj) simp
  then have "leafMs (filter ?g ?cs) = leafMs ([pc] @ ?fullCh)"
    using pc by (intro leafMs_mset) simp
  also have "\<dots> = mset (leavesOf ?qnode)"
    using pcnl by (simp add: mset_leavesOf leafMs_filter_split [of "children pc" "\<lambda>child. mark child = full"] leafMs_def [symmetric])
  finally have q: "mset (leavesOf ?qnode) = leafMs (filter ?g ?cs)" by simp
  have ex: "\<exists>c \<in> set ?cs. ?g c" using pcin pcm by auto
  from ex q have lm: "leafMs ?new = leafMs ?cs" unfolding new by (rule leafMs_replaceGroup_eq)
  have qok: "leafOK ?qnode"
    using all leafOK_children [OF pcok] by (auto simp: list_all_iff)
  have newok: "list_all leafOK ?new" using all qok by (rule list_all_replaceGroup)
  have r: "n' = (if length ?new = 1 \<and> isRoot then ?new ! 0 else setChildren n ?new)"
    using res full by (auto simp: extendPartialChild_def Let_def split: if_splits)
  show ?thesis
  proof (cases "length ?new = 1 \<and> isRoot")
    case True
    then obtain x where x: "?new = [x]" by (cases ?new) auto
    with r True have "n' = x" by simp
    with x lm newok nl show ?thesis by (simp add: mset_leavesOf)
  next
    case False
    with r have "n' = setChildren n ?new" by (simp only: if_False)
    with lm newok nl show ?thesis
      by (simp add: leafOK_setChildren mset_leavesOf_setChildren mset_leavesOf)
  qed
qed

lemma leaves_pNodeRewrite:
  assumes "leafOK n" "pNodeRewrite isRoot n = Some (b, n')"
  shows "leafOK n' \<and> mset (leavesOf n') = mset (leavesOf n)"
proof -
  let ?fullCh = "filter (\<lambda>child. mark child = full) (children n)"
  let ?emptyCh = "filter (\<lambda>child. mark child = empty) (children n)"
  let ?partialCh = "filter (\<lambda>child. mark child = partial) (children n)"
  note d = pNodeRewrite_def Let_def
  show ?thesis
  proof (cases "length ?partialCh > 1")
    case True
    with assms show ?thesis by (simp add: d)
  next
    case p1: False
    show ?thesis
    proof (cases "length ?fullCh = 0")
      case True
      with p1 assms show ?thesis by (simp add: d)
    next
      case f0: False
      show ?thesis
      proof (cases "length ?partialCh = 0")
        case True
        show ?thesis
        proof (cases "length ?fullCh > 1 \<and> length ?emptyCh > 0")
          case False
          with True f0 p1 assms show ?thesis by (auto simp: d split: if_splits)
        next
          case g: True
          with True f0 p1 assms(2) have "n' = groupChildren n ?fullCh pNode" by (simp add: d)
          with leaves_groupChildren [OF assms(1)] g show ?thesis by simp
        qed
      next
        case False
        with p1 have "length ?partialCh = 1" by linarith
        then obtain pc where x: "?partialCh = [pc]" by (cases ?partialCh) auto
        then have "index ?partialCh 0 = Some pc" by (simp add: index_def)
        with False f0 p1 assms(2) have e: "extendPartialChild isRoot n pc ?fullCh = (b, n')"
          by (simp add: d)
        from f0 have "?fullCh \<noteq> []" by simp
        from leaves_extendPartialChild [OF assms(1) x this e] show ?thesis .
      qed
    qed
  qed
qed

lemma leaves_mergeQNodes:
  assumes "leafOK parent" "mergeQNodes parent idx = Some n'"
  shows "leafOK n' \<and> mset (leavesOf n') = mset (leavesOf parent)"
proof -
  let ?cs = "children parent"
  from assms(2) obtain child where c: "index ?cs idx = Some child"
    by (auto simp: mergeQNodes_def split: option.splits)
  then have i: "nat idx < length ?cs" and ch: "child = ?cs ! nat idx"
    by (auto dest: index_SomeD)
  have all: "list_all leafOK ?cs" using assms(1) by (rule leafOK_children)
  then have cok: "leafOK child" using i ch by (simp add: list_all_iff)
  from i have "?cs \<noteq> []" by auto
  with assms(1) have nl: "kind parent \<noteq> leafNode" by (rule_tac leafOK_nonleaf) auto
  show ?thesis
  proof (cases "kind child = qNode")
    case False
    with assms c show ?thesis by (simp add: mergeQNodes_def)
  next
    case True
    obtain gcs' where n': "n' = setChildren parent (take (nat idx) ?cs @ gcs' @ drop (nat idx + 1) ?cs)"
      and g: "gcs' = children child \<or> gcs' = rev (children child)"
      using assms(2) c True by (auto simp: mergeQNodes_def Let_def split: if_splits)
    from g have lg: "leafMs gcs' = mset (leavesOf child)" using True by (auto simp: mset_leavesOf)
    from g leafOK_children [OF cok] have gok: "list_all leafOK gcs'" by auto
    have split: "?cs = take (nat idx) ?cs @ child # drop (nat idx + 1) ?cs"
      using i ch by (simp add: id_take_nth_drop)
    have "leafMs (take (nat idx) ?cs @ gcs' @ drop (nat idx + 1) ?cs)
        = leafMs (take (nat idx) ?cs @ child # drop (nat idx + 1) ?cs)"
      using lg by simp
    with split have lm: "leafMs (take (nat idx) ?cs @ gcs' @ drop (nat idx + 1) ?cs) = leafMs ?cs" by simp
    have "list_all leafOK (take (nat idx) ?cs)" "list_all leafOK (drop (nat idx + 1) ?cs)"
      using all by (auto simp: list_all_iff dest: in_set_takeD in_set_dropD)
    with gok have "list_all leafOK (take (nat idx) ?cs @ gcs' @ drop (nat idx + 1) ?cs)" by simp
    with lm nl show ?thesis unfolding n'
      by (simp add: leafOK_setChildren mset_leavesOf_setChildren mset_leavesOf)
  qed
qed

lemma leaves_mergeLoop:
  "leafOK n \<Longrightarrow> mergeLoop n idxs = Some n' \<Longrightarrow> leafOK n' \<and> mset (leavesOf n') = mset (leavesOf n)"
proof (induction idxs arbitrary: n)
  case Nil
  then show ?case by simp
next
  case (Cons idx rest)
  show ?case
  proof (cases "index (children n) idx")
    case None
    with Cons.prems show ?thesis by simp
  next
    case (Some child)
    show ?thesis
    proof (cases "kind child = qNode")
      case False
      with Some Cons show ?thesis by simp
    next
      case True
      with Some Cons.prems obtain n1 where m: "mergeQNodes n idx = Some n1" and l: "mergeLoop n1 rest = Some n'"
        by (auto split: option.splits)
      from leaves_mergeQNodes [OF Cons.prems(1) m] Cons.IH [OF _ l] show ?thesis by simp
    qed
  qed
qed

lemma leaves_qNodeRewrite:
  assumes "leafOK n" "qNodeRewrite n = Some (b, n')"
  shows "leafOK n' \<and> mset (leavesOf n') = mset (leavesOf n)"
  using assms
  by (auto simp: qNodeRewrite_def Let_def split: if_splits dest: leaves_mergeLoop)

lemma leaves_reduce_all:
  "(leafOK n \<longrightarrow> (\<forall>b n'. reduce isRoot n = Some (b, n') \<longrightarrow> leafOK n' \<and> mset (leavesOf n') = mset (leavesOf n)))"
  "(leafOK n1 \<longrightarrow> (\<forall>b n'. reducePNode isRoot1 n1 = Some (b, n') \<longrightarrow> leafOK n' \<and> mset (leavesOf n') = mset (leavesOf n1)))"
  "(leafOK n2 \<longrightarrow> (\<forall>b n'. reduceQNode n2 = Some (b, n') \<longrightarrow> leafOK n' \<and> mset (leavesOf n') = mset (leavesOf n2)))"
  "(leafOK n3 \<longrightarrow> (\<forall>b n'. reducePartialChildren n3 = Some (b, n') \<longrightarrow> leafOK n' \<and> mset (leavesOf n') = mset (leavesOf n3)))"
  "(list_all leafOK cs \<longrightarrow> (\<forall>b cs'. reducePartialLoop cs = Some (b, cs') \<longrightarrow>
       list_all leafOK cs' \<and> leafMs cs' = leafMs cs \<and> (cs' = [] \<longleftrightarrow> cs = [])))"
proof (induction isRoot n and isRoot1 n1 and n2 and n3 and cs
       rule: reduce_reducePNode_reduceQNode_reducePartialChildren_reducePartialLoop.induct)
  case (1 isRoot n)
  then show ?case
    by (auto simp: reduce.simps [of isRoot n] split: if_splits nodeKind.splits)
next
  case (2 isRoot n)
  show ?case
  proof (intro impI allI)
    fix b n'
    assume ok: "leafOK n" and r: "reducePNode isRoot n = Some (b, n')"
    from r obtain b1 n1 where r1: "reducePartialChildren n = Some (b1, n1)"
      by (auto simp: reducePNode.simps [of isRoot n] split: option.splits)
    from 2 ok r1 have n1: "leafOK n1" "mset (leavesOf n1) = mset (leavesOf n)" by auto
    show "leafOK n' \<and> mset (leavesOf n') = mset (leavesOf n)"
    proof (cases b1)
      case False
      with r r1 n1 show ?thesis by (auto simp: reducePNode.simps [of isRoot n])
    next
      case True
      with r r1 have "pNodeRewrite isRoot n1 = Some (b, n')"
        by (auto simp: reducePNode.simps [of isRoot n])
      from leaves_pNodeRewrite [OF n1(1) this] n1(2) show ?thesis by simp
    qed
  qed
next
  case (3 n)
  show ?case
  proof (intro impI allI)
    fix b n'
    assume ok: "leafOK n" and r: "reduceQNode n = Some (b, n')"
    from r obtain b1 n1 where r1: "reducePartialChildren n = Some (b1, n1)"
      by (auto simp: reduceQNode.simps [of n] split: option.splits)
    from 3 ok r1 have n1: "leafOK n1" "mset (leavesOf n1) = mset (leavesOf n)" by auto
    show "leafOK n' \<and> mset (leavesOf n') = mset (leavesOf n)"
    proof (cases b1)
      case False
      with r r1 n1 show ?thesis by (auto simp: reduceQNode.simps [of n])
    next
      case True
      with r r1 have "qNodeRewrite n1 = Some (b, n')"
        by (auto simp: reduceQNode.simps [of n])
      from leaves_qNodeRewrite [OF n1(1) this] n1(2) show ?thesis by simp
    qed
  qed
next
  case (4 n)
  show ?case
  proof (intro impI allI)
    fix b n'
    assume ok: "leafOK n" and r: "reducePartialChildren n = Some (b, n')"
    from r obtain b' cs' where l: "reducePartialLoop (children n) = Some (b', cs')"
      and n': "n' = setChildren n cs' \<or> n' = setCounts (setChildren n cs')"
      by (auto simp: reducePartialChildren.simps [of n] split: option.splits if_splits)
    from 4 ok l have c: "list_all leafOK cs'" "leafMs cs' = leafMs (children n)" "cs' = [] \<longleftrightarrow> children n = []"
      by (auto dest: leafOK_children)
    show "leafOK n' \<and> mset (leavesOf n') = mset (leavesOf n)"
    proof (cases "kind n = leafNode")
      case True
      with ok have "children n = []" "mark n \<noteq> partial" by (auto simp: leafOK_iff [of n])
      with c True n' show ?thesis
        by (auto simp: leafOK_setChildren leavesOf_setChildren_leaf)
    next
      case False
      with c n' show ?thesis
        by (auto simp: leafOK_setChildren mset_leavesOf_setChildren mset_leavesOf)
    qed
  qed
next
  case 5
  then show ?case by simp
next
  case (6 c cs)
  show ?case
  proof (intro impI allI)
    fix b cs'
    assume ok: "list_all leafOK (c # cs)" and r: "reducePartialLoop (c # cs) = Some (b, cs')"
    show "list_all leafOK cs' \<and> leafMs cs' = leafMs (c # cs) \<and> (cs' = [] \<longleftrightarrow> c # cs = [])"
    proof (cases "mark c = partial")
      case True
      from r True obtain b1 c' where c': "reduce False c = Some (b1, c')"
        by (auto split: option.splits)
      from 6(1) [OF True] ok c' have wc: "leafOK c'" "mset (leavesOf c') = mset (leavesOf c)" by auto
      show ?thesis
      proof (cases b1)
        case False
        with r True c' ok wc show ?thesis by auto
      next
        case b1: True
        from r True c' b1 obtain b2 cs2 where l: "reducePartialLoop cs = Some (b2, cs2)" and e: "cs' = c' # cs2"
          by (auto split: option.splits)
        from 6(2) [OF True c' refl] b1 ok l have "list_all leafOK cs2 \<and> leafMs cs2 = leafMs cs" by auto
        with e wc show ?thesis by simp
      qed
    next
      case False
      from r False obtain b2 cs2 where l: "reducePartialLoop cs = Some (b2, cs2)" and e: "cs' = c # cs2"
        by (auto split: option.splits)
      from 6(3) [OF False] ok l have "list_all leafOK cs2 \<and> leafMs cs2 = leafMs cs" by auto
      with e ok show ?thesis by simp
    qed
  qed
qed

lemma leaves_reduce:
  "leafOK n \<Longrightarrow> reduce isRoot n = Some (b, n') \<Longrightarrow> leafOK n' \<and> mset (leavesOf n') = mset (leavesOf n)"
  using leaves_reduce_all(1) [of n isRoot] by blast

lemma leaves_Reduce:
  assumes "treeOK t" "Reduce t c = Some (b, t')"
  shows "treeOK t' \<and> mset (treeLeaves t') = mset (treeLeaves t)"
proof (cases "root t")
  case None
  with assms show ?thesis by (simp add: Reduce_def)
next
  case (Some r)
  with assms(1) have ok: "leafOK r" by (simp add: treeOK_def)
  show ?thesis
  proof (cases "length c \<le> 1 \<or> length c = length (leaves t)")
    case True
    with Some assms(2) have "t' = t" by (simp add: Reduce_def)
    with assms(1) show ?thesis by simp
  next
    case False
    from assms(2) Some False obtain r1 where m: "markConstraint (leaves t) c (clearMarks r) = Some r1"
      by (simp add: Reduce_def split: option.splits)
    from leafOK_markConstraint [OF m] leavesOf_markConstraint [OF m] ok
    have r2: "leafOK (bubbleUp r1)" "leavesOf (bubbleUp r1) = leavesOf r" by simp_all
    show ?thesis
    proof (cases "mark (bubbleUp r1) = empty")
      case True
      with assms(2) Some False m have "t' = t\<lparr>root := Some (bubbleUp r1)\<rparr>"
        by (simp add: Reduce_def Let_def)
      with r2 Some show ?thesis by (simp add: treeOK_def treeLeaves_def)
    next
      case ne: False
      with assms(2) Some False m obtain r3 where red: "reduce True (bubbleUp r1) = Some (b, r3)"
        and t': "t' = t\<lparr>root := Some r3\<rparr>"
        by (auto simp: Reduce_def Let_def split: option.splits)
      from leaves_reduce [OF r2(1) red] r2(2) have "leafOK r3" "mset (leavesOf r3) = mset (leavesOf r)"
        by simp_all
      with t' Some show ?thesis by (simp add: treeOK_def treeLeaves_def)
    qed
  qed
qed

lemma concat_map_newLeaf: "concat (map (\<lambda>x. leavesOf (newLeaf (f x))) xs) = map f xs"
  by (induction xs) (auto simp: newLeaf_def)

lemma leaves_NewPQTree:
  "\<exists>t. NewPQTree (int n) = Some t \<and> treeOK t \<and> treeLeaves t = map int [0 ..< n]"
proof -
  consider "n = 0" | "n = 1" | "2 \<le> n" by linarith
  then show ?thesis
  proof cases
    case 1
    then show ?thesis by (simp add: NewPQTree_def treeOK_def treeLeaves_def)
  next
    case 2
    then show ?thesis by (simp add: NewPQTree_def treeOK_def treeLeaves_def newLeaf_def)
  next
    case 3
    then show ?thesis
      by (simp add: NewPQTree_def treeOK_def treeLeaves_def Let_def list_all_iff comp_def
          concat_map_newLeaf) (simp add: newLeaf_def)
  qed
qed

lemma enumerate_mset:
  "\<forall>xs \<in> set (enumerateLazy node prefix). mset xs = mset prefix + mset (leavesOf node)"
  "\<forall>xs \<in> set (enumerateChildrenLazy chs prefix'). mset xs = mset prefix' + leafMs chs"
proof (induction node prefix and chs prefix' rule: enumerateLazy_enumerateChildrenLazy.induct)
  case (1 node prefix)
  show ?case
  proof (cases "kind node = leafNode")
    case True
    then show ?thesis by (simp add: enumerateLazy.simps [of node prefix] leavesOf_iff [of node])
  next
    case False
    show ?thesis
    proof
      fix xs assume "xs \<in> set (enumerateLazy node prefix)"
      with False obtain chs where chs: "chs \<in> set (forEachChildPerm node)"
        and xs: "xs \<in> set (enumerateChildrenLazy chs prefix)"
        by (auto simp: enumerateLazy.simps [of node prefix])
      from "1.IH" [OF False chs] xs have "mset xs = mset prefix + leafMs chs" by simp
      moreover have "leafMs chs = leafMs (children node)"
        using forEachChildPerm_mset [OF chs] by (rule leafMs_mset)
      ultimately show "mset xs = mset prefix + mset (leavesOf node)"
        using False by (simp add: mset_leavesOf)
    qed
  qed
next
  case (2 prefix)
  show ?case by (simp add: enumerateChildrenLazy.simps)
next
  case (3 first rest prefix)
  show ?case
  proof
    fix xs assume "xs \<in> set (enumerateChildrenLazy (first # rest) prefix)"
    then obtain firstPerm where fp: "firstPerm \<in> set (enumerateLazy first [])"
      and xs: "xs \<in> set (enumerateChildrenLazy rest (prefix @ firstPerm))"
      by (auto simp: enumerateChildrenLazy.simps)
    from "3.IH"(1) fp have "mset firstPerm = mset (leavesOf first)" by simp
    moreover from "3.IH"(2) [OF fp] xs have "mset xs = mset (prefix @ firstPerm) + leafMs rest" by simp
    ultimately show "mset xs = mset prefix + leafMs (first # rest)" by simp
  qed
qed

lemma Enumerate_mset: "xs \<in> set (Enumerate t limit) \<Longrightarrow> mset xs = mset (treeLeaves t)"
proof (cases "root t")
  case None
  assume "xs \<in> set (Enumerate t limit)"
  with None show ?thesis by (simp add: Enumerate_def treeLeaves_def)
next
  case (Some r)
  assume "xs \<in> set (Enumerate t limit)"
  with Some have "xs \<in> set (enumerateLazy r [])"
    by (auto simp: Enumerate_def Let_def split: if_splits dest: in_set_takeD)
  with enumerate_mset(1) [of r "[]"] Some show ?thesis by (simp add: treeLeaves_def)
qed

section \<open>Candidates are permutations\<close>

lemma length_Seq [simp]: "length (Seq n) = n"
  by (simp add: Seq_def)

lemma Generate_mset: "xs \<in> set (Generate n limit) \<Longrightarrow> mset xs = mset (Seq n)"
proof -
  assume a: "xs \<in> set (Generate n limit)"
  let ?every = "if n \<le> 1 then [Seq n] else Seq n # heapLoop (Seq n) (replicate n 0) 0"
  from a have "xs \<in> set ?every"
    by (auto simp: Generate_def Let_def split: if_splits dest: in_set_takeD)
  then consider "xs = Seq n" | "xs \<in> set (heapLoop (Seq n) (replicate n 0) 0)"
    by (auto split: if_splits)
  then show ?thesis
  proof cases
    case 1
    then show ?thesis by simp
  next
    case 2
    from heapLoop_mset [OF _ 2] show ?thesis by simp
  qed
qed

lemma fallbackPermutations_mset:
  "xs \<in> set (fallbackPermutations candLimit n) \<Longrightarrow> mset xs = mset (Seq n)"
  by (auto simp: fallbackPermutations_def split: if_splits dest: Generate_mset)

lemma leaves_applyParentConstraints:
  "treeOK tree \<Longrightarrow> applyParentConstraints g tree nodeIdx row prevOrder prevNodes = Some (b, tree')
     \<Longrightarrow> treeOK tree' \<and> mset (treeLeaves tree') = mset (treeLeaves tree)"
proof (induction prevOrder arbitrary: tree)
  case Nil
  then show ?case by simp
next
  case (Cons idx rest)
  from Cons.prems(2) obtain prevNode where pn: "index prevNodes idx = Some prevNode"
    by (auto split: option.splits)
  let ?c = "idsToIndices (ChildrenInRow g prevNode row) nodeIdx"
  show ?case
  proof (cases "length ?c \<ge> 2")
    case False
    with Cons.prems pn have "applyParentConstraints g tree nodeIdx row rest prevNodes = Some (b, tree')"
      by (simp add: Let_def)
    from Cons.IH [OF Cons.prems(1) this] show ?thesis .
  next
    case True
    with Cons.prems(2) pn obtain b1 t1 where r: "Reduce tree ?c = Some (b1, t1)"
      by (auto simp: Let_def split: option.splits)
    from leaves_Reduce [OF Cons.prems(1) r] have t1: "treeOK t1" "mset (treeLeaves t1) = mset (treeLeaves tree)"
      by simp_all
    show ?thesis
    proof (cases b1)
      case False
      with Cons.prems(2) pn True r have "tree' = t1" by (simp add: Let_def)
      with t1 show ?thesis by simp
    next
      case b1: True
      with Cons.prems(2) pn True r have "applyParentConstraints g t1 nodeIdx row rest prevNodes = Some (b, tree')"
        by (simp add: Let_def)
      from Cons.IH [OF t1(1) this] t1(2) show ?thesis by simp
    qed
  qed
qed

lemma leaves_childConstraintLoop:
  "treeOK tree \<Longrightarrow> childConstraintLoop g tree nodeIdx row cs = Some (b, tree')
     \<Longrightarrow> treeOK tree' \<and> mset (treeLeaves tree') = mset (treeLeaves tree)"
proof (induction cs arbitrary: tree)
  case Nil
  then show ?case by simp
next
  case (Cons child rest)
  let ?c = "idsToIndices (ParentsInRow g child row) nodeIdx"
  show ?case
  proof (cases "length ?c \<ge> 2")
    case False
    with Cons.prems have "childConstraintLoop g tree nodeIdx row rest = Some (b, tree')"
      by (simp add: Let_def)
    from Cons.IH [OF Cons.prems(1) this] show ?thesis .
  next
    case True
    with Cons.prems(2) obtain b1 t1 where r: "Reduce tree ?c = Some (b1, t1)"
      by (auto simp: Let_def split: option.splits)
    from leaves_Reduce [OF Cons.prems(1) r] have t1: "treeOK t1" "mset (treeLeaves t1) = mset (treeLeaves tree)"
      by simp_all
    show ?thesis
    proof (cases b1)
      case False
      with Cons.prems(2) True r have "tree' = t1" by (simp add: Let_def)
      with t1 show ?thesis by simp
    next
      case b1: True
      with Cons.prems(2) True r have "childConstraintLoop g t1 nodeIdx row rest = Some (b, tree')"
        by (simp add: Let_def)
      from Cons.IH [OF t1(1) this] t1(2) show ?thesis by simp
    qed
  qed
qed

lemma leaves_applyChildConstraints:
  "treeOK tree \<Longrightarrow> applyChildConstraints g rows tree nodeIdx depth = Some (b, tree')
     \<Longrightarrow> treeOK tree' \<and> mset (treeLeaves tree') = mset (treeLeaves tree)"
  by (auto simp: applyChildConstraints_def split: if_splits dest: leaves_childConstraintLoop)

lemma generateC1PCandidates_mset:
  assumes "generateC1PCandidates g rows candLimit depth nodes prevOrder prevNodes = Some cands"
    and "xs \<in> set cands"
  shows "mset xs = mset (Seq (length nodes))"
proof -
  let ?n = "length nodes"
  show ?thesis
  proof (cases "?n \<le> 1")
    case True
    with assms show ?thesis by (auto simp: generateC1PCandidates_def Let_def)
  next
    case n1: False
    obtain tree where t: "NewPQTree (int ?n) = Some tree" "treeOK tree" "treeLeaves tree = map int [0 ..< ?n]"
      using leaves_NewPQTree [of ?n] by blast
    let ?idx = "buildNodeIndex nodes"
    from assms(1) n1 t(1) obtain ok1 tree1 where
      p: "applyParentConstraints g tree ?idx (rows ! depth) prevOrder prevNodes = Some (ok1, tree1)"
      by (auto simp: generateC1PCandidates_def Let_def split: option.splits)
    from leaves_applyParentConstraints [OF t(2) p] have t1: "treeOK tree1" "mset (treeLeaves tree1) = mset (treeLeaves tree)"
      by simp_all
    show ?thesis
    proof (cases ok1)
      case False
      with assms n1 t(1) p have "xs \<in> set (fallbackPermutations candLimit ?n)"
        by (simp add: generateC1PCandidates_def Let_def)
      then show ?thesis by (rule fallbackPermutations_mset)
    next
      case ok1: True
      with assms(1) n1 t(1) p obtain ok2 tree2 where
        c: "applyChildConstraints g rows tree1 ?idx depth = Some (ok2, tree2)"
        by (auto simp: generateC1PCandidates_def Let_def split: option.splits)
      from leaves_applyChildConstraints [OF t1(1) c] t1(2) t(3)
      have t2: "mset (treeLeaves tree2) = mset (Seq ?n)" by (simp add: Seq_def)
      show ?thesis
      proof (cases ok2)
        case False
        with assms n1 t(1) p ok1 c have "xs \<in> set (fallbackPermutations candLimit ?n)"
          by (simp add: generateC1PCandidates_def Let_def)
        then show ?thesis by (rule fallbackPermutations_mset)
      next
        case True
        let ?limit = "if ?n \<le> 8 then sint (ValidCount tree2) else candLimit"
        from assms n1 t(1) p ok1 c True
        have "xs \<in> set (fallbackPermutations candLimit ?n) \<or> xs \<in> set (Enumerate tree2 ?limit)"
          by (simp add: generateC1PCandidates_def Let_def split: if_splits)
        then show ?thesis
          using t2 by (auto dest: fallbackPermutations_mset Enumerate_mset)
      qed
    qed
  qed
qed

section \<open>The barycentric ordering lists every row\<close>

lemma ordersOK_upd: "ordersOK g os \<Longrightarrow> mset ids = mset (NodesInRow g r) \<Longrightarrow> ordersOK g (os(r \<mapsto> ids))"
  by (simp add: ordersOK_def)

lemma ordersCover_upd: "ordersCover g rows os \<Longrightarrow> ordersCover g rows (os(r \<mapsto> ids))"
  by (simp add: ordersCover_def)

lemma mset_insertStable [simp]: "mset (insertStable cmp x xs) = add_mset x (mset xs)"
  by (induction xs) auto

lemma mset_sortStableFunc [simp]: "mset (sortStableFunc cmp xs) = mset xs"
  by (induction xs) (auto simp: sortStableFunc_def)

lemma mset_map_key: "(\<And>x. f (mk x) = x) \<Longrightarrow> mset (map f (sortStableFunc cmp (map mk xs))) = mset xs"
proof -
  assume a: "\<And>x. f (mk x) = x"
  have "mset (map f (sortStableFunc cmp (map mk xs))) = image_mset f (mset (sortStableFunc cmp (map mk xs)))"
    by simp
  also have "\<dots> = image_mset f (image_mset mk (mset xs))" by simp
  also have "\<dots> = mset xs" using a by (simp add: multiset.map_comp comp_def)
  finally show ?thesis .
qed

lemma mset_orderByMinParent [simp]: "mset (orderByMinParent g nodes parentOrder) = mset nodes"
  unfolding orderByMinParent_def by (rule mset_map_key) (simp add: minParentEntry_def Let_def)

lemma mset_wmedian [simp]: "mset (wmedian g nodes current fixed useParents) = mset nodes"
proof (cases "length nodes \<le> 1")
  case True
  then show ?thesis by (simp add: wmedian_def)
next
  case False
  then show ?thesis
    unfolding wmedian_def Let_def by (simp only: if_False) (rule mset_map_key, simp)
qed

lemma mset_transposeLoop [simp]: "mset (transposeLoop g adjPos useParents order) = mset order"
proof (induction g adjPos useParents order rule: transposeLoop.induct)
  case (1 g adjPos useParents order)
  obtain order' swapped where s: "transposeScan g adjPos useParents order 0 False = (order', swapped)"
    by (cases "transposeScan g adjPos useParents order 0 False")
  from transposeScan_props [OF s] have m: "mset order' = mset order" by simp
  show ?case
  proof (cases swapped)
    case True
    with "1.IH" [OF s [symmetric] True] s m show ?thesis
      by (simp add: transposeLoop.simps [of g adjPos useParents order])
  next
    case False
    with s m show ?thesis by (simp add: transposeLoop.simps [of g adjPos useParents order])
  qed
qed

lemma transpose_ok:
  assumes "ordersOK g os" "ordersCover g rows os"
  shows "ordersOK g (transposeRow g os row adjRow useParents) \<and> ordersCover g rows (transposeRow g os row adjRow useParents)"
proof (cases "length (rowOrder os row) < 2")
  case True
  with assms show ?thesis by (simp add: transposeRow_def Let_def)
next
  case False
  then obtain ids where ids: "os row = Some ids" by (cases "os row") (auto simp: rowOrder_def)
  with assms(1) have "mset ids = mset (NodesInRow g row)" by (simp add: ordersOK_def)
  with False ids assms show ?thesis
    by (simp add: transposeRow_def Let_def rowOrder_def ordersOK_upd ordersCover_upd)
qed

lemma sweep_step_ok:
  assumes "ordersOK g os" "ordersCover g rows os"
  shows "ordersOK g (transposeRow g (os(r \<mapsto> wmedian g (NodesInRow g r) cur fixed up)) r adj up) \<and>
         ordersCover g rows (transposeRow g (os(r \<mapsto> wmedian g (NodesInRow g r) cur fixed up)) r adj up)"
  by (rule transpose_ok) (simp_all add: assms ordersOK_upd ordersCover_upd)

lemma sweep_fold_ok:
  assumes "ordersOK g os" "ordersCover g rows os"
  shows "ordersOK g (fold (\<lambda>r os. transposeRow g (os(r \<mapsto> wmedian g (NodesInRow g r) (rowOrder os r) (rowOrder os (r + d)) up)) r (r + d) up) rs os) \<and>
         ordersCover g rows (fold (\<lambda>r os. transposeRow g (os(r \<mapsto> wmedian g (NodesInRow g r) (rowOrder os r) (rowOrder os (r + d)) up)) r (r + d) up) rs os)"
  using assms
proof (induction rs arbitrary: os)
  case Nil
  then show ?case by simp
next
  case (Cons r rs)
  let ?os1 = "transposeRow g (os(r \<mapsto> wmedian g (NodesInRow g r) (rowOrder os r) (rowOrder os (r + d)) up)) r (r + d) up"
  have "ordersOK g ?os1 \<and> ordersCover g rows ?os1" by (rule sweep_step_ok [OF Cons.prems])
  then have "ordersOK g ?os1" "ordersCover g rows ?os1" by simp_all
  from Cons.IH [OF this] show ?case by (simp only: fold_simps)
qed

lemma sweepDown_ok:
  "ordersOK g os \<Longrightarrow> ordersCover g rows os \<Longrightarrow> ordersOK g (sweepDown g rs os) \<and> ordersCover g rows (sweepDown g rs os)"
  using sweep_fold_ok [of g os rows "- 1" True "tl rs"] by (simp add: sweepDown_def)

lemma sweepUp_ok:
  "ordersOK g os \<Longrightarrow> ordersCover g rows os \<Longrightarrow> ordersOK g (sweepUp g rs os) \<and> ordersCover g rows (sweepUp g rs os)"
  using sweep_fold_ok [of g os rows 1 False "rev (butlast rs)"] by (simp add: sweepUp_def)

lemma runPassesLoop_ok:
  "ordersOK g os \<Longrightarrow> ordersCover g rows os \<Longrightarrow> ordersOK g best \<Longrightarrow> ordersCover g rows best
     \<Longrightarrow> ordersOK g (fst (runPassesLoop g rows passes pass os best bestSc stale)) \<and>
         ordersCover g rows (fst (runPassesLoop g rows passes pass os best bestSc stale))"
proof (induction g rows passes pass os best bestSc stale rule: runPassesLoop.induct)
  case (1 g rows passes pass os best bestSc staleCount)
  show ?case
  proof (cases "pass < passes \<and> bestSc > 0")
    case False
    then have "runPassesLoop g rows passes pass os best bestSc staleCount = (best, bestSc)"
      by (subst runPassesLoop.simps) auto
    with "1.prems" show ?thesis by simp
  next
    case True
    define os' where "os' = (if pass mod 2 = 0 then sweepDown g rows os else sweepUp g rows os)"
    define sc where "sc = CountCrossings g (goMap os')"
    define best' where "best' = (if sc < bestSc then copyOrders os' else best)"
    define bestSc' where "bestSc' = (if sc < bestSc then sc else bestSc)"
    define stale' where "stale' = (if sc < bestSc then 0 else staleCount + 1)"
    have o: "ordersOK g os' \<and> ordersCover g rows os'"
      using sweepDown_ok [OF "1.prems"(1,2)] sweepUp_ok [OF "1.prems"(1,2)] by (simp add: os'_def)
    then have b: "ordersOK g best' \<and> ordersCover g rows best'"
      using "1.prems"(3,4) by (simp add: best'_def copyOrders_def)
    have unf: "runPassesLoop g rows passes pass os best bestSc staleCount =
        (if stale' \<ge> 4 \<and> sc = bestSc then (best', bestSc')
         else runPassesLoop g rows passes (pass + 1) os' best' bestSc' stale')"
      using True
      by (subst runPassesLoop.simps) (simp add: Let_def os'_def sc_def best'_def bestSc'_def stale'_def)
    show ?thesis
    proof (cases "stale' \<ge> 4 \<and> sc = bestSc")
      case True
      with unf b show ?thesis by simp
    next
      case False
      have "ordersOK g (fst (runPassesLoop g rows passes (pass + 1) os' best' bestSc' stale')) \<and>
            ordersCover g rows (fst (runPassesLoop g rows passes (pass + 1) os' best' bestSc' stale'))"
        using o b False
        by (intro "1.IH" [OF True refl os'_def sc_def best'_def bestSc'_def stale'_def])
           (simp_all)
      with unf False show ?thesis by simp
    qed
  qed
qed

lemma runPasses_ok:
  "ordersOK g init \<Longrightarrow> ordersCover g rows init
     \<Longrightarrow> ordersOK g (fst (runPasses g rows init passes)) \<and> ordersCover g rows (fst (runPasses g rows init passes))"
  unfolding runPasses_def Let_def copyOrders_def by (rule runPassesLoop_ok)

lemma rowOrder_mset:
  "ordersOK g os \<Longrightarrow> ordersCover g rows os \<Longrightarrow> r \<in> set rows
     \<Longrightarrow> mset (rowOrder os r) = mset (NodesInRow g r)"
  by (cases "os r") (auto simp: rowOrder_def ordersOK_def ordersCover_def)

lemma fold_orders_inv:
  assumes step: "\<forall>r os. r \<in> R \<longrightarrow> ordersOK g os \<longrightarrow>
            ordersOK g (F r os) \<and> (\<forall>x. os x \<noteq> None \<longrightarrow> F r os x \<noteq> None) \<and> (Q r \<longrightarrow> F r os r \<noteq> None)"
    and "set rs \<subseteq> R" "ordersOK g os"
  shows "ordersOK g (fold F rs os) \<and>
         (\<forall>x. os x \<noteq> None \<or> (x \<in> set rs \<and> Q x) \<longrightarrow> fold F rs os x \<noteq> None)"
  using assms(2,3)
proof (induction rs arbitrary: os)
  case Nil
  then show ?case by simp
next
  case (Cons r rs)
  from Cons.prems(1) have r: "r \<in> R" and rs: "set rs \<subseteq> R" by simp_all
  from step r Cons.prems(2)
  have s: "ordersOK g (F r os)" "\<forall>x. os x \<noteq> None \<longrightarrow> F r os x \<noteq> None" "Q r \<longrightarrow> F r os r \<noteq> None"
    by blast+
  from Cons.IH [OF rs s(1)]
  have ih: "ordersOK g (fold F rs (F r os))"
    "\<forall>x. F r os x \<noteq> None \<or> (x \<in> set rs \<and> Q x) \<longrightarrow> fold F rs (F r os) x \<noteq> None"
    by blast+
  have "\<forall>x. os x \<noteq> None \<or> (x \<in> set (r # rs) \<and> Q x) \<longrightarrow> fold F rs (F r os) x \<noteq> None"
  proof (intro allI impI)
    fix x assume "os x \<noteq> None \<or> (x \<in> set (r # rs) \<and> Q x)"
    then have "F r os x \<noteq> None \<or> (x \<in> set rs \<and> Q x)" using s(2,3) by auto
    with ih(2) show "fold F rs (F r os) x \<noteq> None" by blast
  qed
  with ih(1) show ?case by (simp only: fold_simps)
qed

lemma reverseOrders_ok:
  assumes "ordersOK g os" "ordersCover g rows os"
  shows "ordersOK g (reverseOrders os rows) \<and> ordersCover g rows (reverseOrders os rows)"
proof -
  define F where "F = (\<lambda>r (rv :: orders). rv(r \<mapsto> rev (rowOrder os r)))"
  have e: "ordersOK g Map.empty" by (simp add: ordersOK_def)
  have step: "\<forall>r rv. r \<in> set rows \<longrightarrow> ordersOK g rv \<longrightarrow>
       ordersOK g (F r rv) \<and> (\<forall>x. rv x \<noteq> None \<longrightarrow> F r rv x \<noteq> None) \<and> (True \<longrightarrow> F r rv r \<noteq> None)"
  proof (intro allI impI)
    fix r rv assume r: "r \<in> set rows" and ok: "ordersOK g rv"
    have "mset (rev (rowOrder os r)) = mset (NodesInRow g r)"
      using rowOrder_mset [OF assms r] by simp
    with ok have "ordersOK g (rv(r \<mapsto> rev (rowOrder os r)))" by (rule ordersOK_upd)
    then show "ordersOK g (F r rv) \<and> (\<forall>x. rv x \<noteq> None \<longrightarrow> F r rv x \<noteq> None) \<and> (True \<longrightarrow> F r rv r \<noteq> None)"
      by (simp add: F_def)
  qed
  from fold_orders_inv [where R = "set rows" and F = F and Q = "\<lambda>_. True" and rs = rows
      and os = Map.empty and g = g, OF step subset_refl e]
  have "ordersOK g (fold F rows Map.empty)" "\<forall>x. x \<in> set rows \<longrightarrow> fold F rows Map.empty x \<noteq> None"
    by simp_all
  then show ?thesis by (simp add: reverseOrders_def ordersCover_def F_def)
qed

lemma init_fold_ok:
  assumes "ordersOK g os"
  shows "ordersOK g (fold (\<lambda>r os. if length (NodesInRow g r) > 0
                         then os(r \<mapsto> orderByMinParent g (NodesInRow g r) (rowOrder os (r - 1)))
                         else os) rs os) \<and>
         (\<forall>x. os x \<noteq> None \<or> (x \<in> set rs \<and> NodesInRow g x \<noteq> []) \<longrightarrow>
            fold (\<lambda>r os. if length (NodesInRow g r) > 0
                         then os(r \<mapsto> orderByMinParent g (NodesInRow g r) (rowOrder os (r - 1)))
                         else os) rs os x \<noteq> None)"
proof -
  define F where "F = (\<lambda>r (os :: orders). if length (NodesInRow g r) > 0
            then os(r \<mapsto> orderByMinParent g (NodesInRow g r) (rowOrder os (r - 1))) else os)"
  have step: "\<forall>r os. r \<in> UNIV \<longrightarrow> ordersOK g os \<longrightarrow>
       ordersOK g (F r os) \<and> (\<forall>x. os x \<noteq> None \<longrightarrow> F r os x \<noteq> None) \<and> (NodesInRow g r \<noteq> [] \<longrightarrow> F r os r \<noteq> None)"
    by (simp add: F_def ordersOK_upd)
  from fold_orders_inv [where R = UNIV and F = F and Q = "\<lambda>r. NodesInRow g r \<noteq> []" and rs = rs
      and os = os and g = g, OF step subset_UNIV assms]
  show ?thesis unfolding F_def .
qed

lemma initOrders_ok:
  "rows \<noteq> [] \<Longrightarrow> ordersOK g (initOrders g rows) \<and> ordersCover g rows (initOrders g rows)"
proof -
  assume ne: "rows \<noteq> []"
  let ?os0 = "Map.empty(rows ! 0 \<mapsto> sortStableFunc cmpCompare (NodesInRow g (rows ! 0)))"
  have "ordersOK g ?os0" by (simp add: ordersOK_def)
  from init_fold_ok [OF this, of "tl rows"] ne
  have ok: "ordersOK g (initOrders g rows)"
    and cov: "\<forall>r. ?os0 r \<noteq> None \<or> (r \<in> set (tl rows) \<and> NodesInRow g r \<noteq> []) \<longrightarrow> initOrders g rows r \<noteq> None"
    by (simp_all add: initOrders_def)
  have "ordersCover g rows (initOrders g rows)"
    unfolding ordersCover_def
  proof (intro ballI impI)
    fix r assume r: "r \<in> set rows" and n: "NodesInRow g r \<noteq> []"
    from r ne have "r = rows ! 0 \<or> r \<in> set (tl rows)" by (cases rows) auto
    with n cov show "initOrders g rows r \<noteq> None" by auto
  qed
  with ok show ?thesis by simp
qed

lemma Barycentric_OrderRows_ok:
  assumes "RowIDs g \<noteq> []"
  shows "\<exists>os. Barycentric_OrderRows bPasses g = goMap os \<and> ordersOK g os \<and> ordersCover g (RowIDs g) os"
proof -
  let ?rows = "RowIDs g"
  let ?passes = "if bPasses \<le> 0 then defaultPasses else bPasses"
  let ?best = "initOrders g ?rows"
  let ?bestSc = "CountCrossings g (goMap ?best)"
  let ?r1 = "runPasses g ?rows ?best ?passes"
  let ?best1 = "if snd ?r1 < ?bestSc then fst ?r1 else ?best"
  let ?r2 = "runPasses g ?rows (reverseOrders ?best1 ?rows) ?passes"
  have b: "ordersOK g ?best \<and> ordersCover g ?rows ?best" using assms by (rule initOrders_ok)
  then have r1: "ordersOK g (fst ?r1) \<and> ordersCover g ?rows (fst ?r1)" by (simp add: runPasses_ok)
  with b have b1: "ordersOK g ?best1 \<and> ordersCover g ?rows ?best1" by simp
  then have "ordersOK g (reverseOrders ?best1 ?rows) \<and> ordersCover g ?rows (reverseOrders ?best1 ?rows)"
    by (simp add: reverseOrders_ok)
  then have r2: "ordersOK g (fst ?r2) \<and> ordersCover g ?rows (fst ?r2)" by (simp add: runPasses_ok)
  have "Barycentric_OrderRows bPasses g = goMap ?best \<or> Barycentric_OrderRows bPasses g = goMap ?best1
      \<or> Barycentric_OrderRows bPasses g = goMap (fst ?r2)"
    using assms by (simp add: Barycentric_OrderRows_def Let_def)
  with b b1 r2 show ?thesis by auto
qed

section \<open>The path of the search\<close>

subsection \<open>The shared best path\<close>

lemma CountCrossingsIdx_empty [simp]: "CountCrossingsIdx edges upper [] = 0"
proof -
  have "edgePositions edges upper [] = []"
    by (simp add: edgePositions_def)
  then show ?thesis by (simp add: CountCrossingsIdx_def)
qed

lemma interleave_inv:
  assumes "interleave (s, cs) (s', cs')" "callsOK bound calls cs" "bestOK bound initialPath calls s"
    "\<forall>i < length cs. callScore (cs ! i) = callScore (calls ! i)"
  shows "callsOK bound calls cs' \<and> bestOK bound initialPath calls s' \<and>
         (\<forall>i < length cs'. callScore (cs' ! i) = callScore (calls ! i))"
proof -
  from assms(1) obtain i c' where i: "i < length cs" and st: "updateBestStep (cs ! i) s = (c', s')"
    and cs': "cs' = cs[i := c']"
    by (auto elim: interleave.cases)
  let ?c = "cs ! i"
  from assms(2) i have len: "length cs = length calls" and p: "callPath ?c = callPath (calls ! i)"
    and pub: "callPhase ?c = Publish \<longrightarrow> callScore (calls ! i) < bound"
    by (auto simp: callsOK_def)
  from assms(4) i have sc: "callScore ?c = callScore (calls ! i)" by simp
  from i len have mem: "calls ! i \<in> set calls" by simp
  from assms(3) have b: "bestScore s \<le> bound" by (simp add: bestOK_def)
  have c'p: "callPath c' = callPath ?c" and c's: "callScore c' = callScore ?c"
    using st by (auto split: updateBestPhase.splits if_splits)
  have c'pub: "callPhase c' = Publish \<longrightarrow> callScore (calls ! i) < bound"
    using st b sc by (auto split: updateBestPhase.splits if_splits)
  have best: "bestOK bound initialPath calls s'"
    using st assms(3) p sc pub mem
    by (auto simp: bestOK_def split: updateBestPhase.splits if_splits)
  have "callsOK bound calls cs'"
    unfolding callsOK_def cs'
  proof (intro conjI allI impI)
    show "length (cs[i := c']) = length calls" using len by simp
  next
    fix j assume j: "j < length (cs[i := c'])"
    show "callPath (cs[i := c'] ! j) = callPath (calls ! j)"
      using assms(2) j c'p p by (cases "j = i") (auto simp: callsOK_def)
  next
    fix j assume j: "j < length (cs[i := c'])" and ph: "callPhase (cs[i := c'] ! j) = Publish"
    show "callScore (calls ! j) < bound"
      using assms(2) j ph c'pub by (cases "j = i") (auto simp: callsOK_def)
  qed
  moreover have "\<forall>j < length cs'. callScore (cs' ! j) = callScore (calls ! j)"
  proof (intro allI impI)
    fix j assume j: "j < length cs'"
    show "callScore (cs' ! j) = callScore (calls ! j)"
    proof (cases "j = i")
      case True
      then show ?thesis using c's sc i by (simp add: cs')
    next
      case False
      then show ?thesis using assms(4) j by (simp add: cs')
    qed
  qed
  ultimately show ?thesis using best by simp
qed

lemma interleave_star_inv:
  assumes "interleave\<^sup>*\<^sup>* x y"
  shows "callsOK bound calls (snd x) \<Longrightarrow> bestOK bound initialPath calls (fst x)
     \<Longrightarrow> (\<forall>i < length (snd x). callScore (snd x ! i) = callScore (calls ! i))
     \<Longrightarrow> callsOK bound calls (snd y) \<and> bestOK bound initialPath calls (fst y) \<and>
         (\<forall>i < length (snd y). callScore (snd y ! i) = callScore (calls ! i))"
  using assms
proof (induction rule: rtranclp_induct)
  case base
  then show ?case by simp
next
  case (step y z)
  from step.IH [OF step.prems]
  have h: "callsOK bound calls (snd y)" "bestOK bound initialPath calls (fst y)"
    "\<forall>i < length (snd y). callScore (snd y ! i) = callScore (calls ! i)" by simp_all
  from step.hyps(2) have "interleave (fst y, snd y) (fst z, snd z)" by simp
  from interleave_inv [OF this h] show ?case .
qed

lemma searchResult_cases:
  assumes "searchResult g workers initialScore initialPath final"
  shows "final = initialPath \<or>
         (\<exists>sc. sc < initialScore \<and> dfs g workers (length (RowIDs g)) sc final)"
proof -
  from assms obtain calls calls' s' where
    calls: "list_all (\<lambda>c. callPhase c = Entry \<and> dfs g workers (length (RowIDs g)) (callScore c) (callPath c)) calls"
    and run: "interleave\<^sup>*\<^sup>* (\<lparr>bestScore = initialScore, bestPath = initialPath, explored = 0, cancelled = False\<rparr>, calls) (s', calls')"
    and fin: "final = bestPath s'"
    by (auto simp: searchResult_def)
  let ?s0 = "\<lparr>bestScore = initialScore, bestPath = initialPath, explored = 0, cancelled = False\<rparr>"
  have c0: "callsOK initialScore calls calls"
    using calls by (auto simp: callsOK_def list_all_length)
  have b0: "bestOK initialScore initialPath calls ?s0" by (simp add: bestOK_def)
  from interleave_star_inv [OF run, of initialScore calls initialPath] c0 b0
  have "bestOK initialScore initialPath calls s'" by simp
  then have "bestPath s' = initialPath \<or> (\<exists>c \<in> set calls. bestPath s' = callPath c \<and> callScore c < initialScore)"
    by (simp add: bestOK_def)
  with calls fin show ?thesis by (auto simp: list_all_iff)
qed

lemma searchOutcome_initial:
  assumes "toIndexPath g (RowIDs g) (Barycentric_OrderRows 0 g) = Some ip"
  shows "searchOutcome g workers ip"
proof -
  let ?s0 = "\<lparr>bestScore = CountCrossings g (Barycentric_OrderRows 0 g), bestPath = ip,
              explored = 0, cancelled = False\<rparr>"
  have "interleave\<^sup>*\<^sup>* (?s0, []) (?s0, [])" by simp
  then have "searchResult g workers (CountCrossings g (Barycentric_OrderRows 0 g)) ip ip"
    unfolding searchResult_def by (intro exI [of _ "[]"] exI [of _ ?s0]) simp
  with assms show ?thesis by (simp add: searchOutcome_def)
qed

subsection \<open>The calls of \<open>dfs\<close>\<close>

lemma findParallelRow_less: "rows \<noteq> [] \<Longrightarrow> findParallelRow g rows < length rows"
proof -
  assume a: "rows \<noteq> []"
  let ?f = "filter (\<lambda>i. length (NodesInRow g (rows ! i)) > 1) [0 ..< length rows]"
  show ?thesis
  proof (cases ?f)
    case Nil
    then show ?thesis using a by (simp add: findParallelRow_def)
  next
    case (Cons i rest)
    then have "i \<in> set ?f" by simp
    then have "i < length rows" by simp
    then show ?thesis using Cons by (simp add: findParallelRow_def)
  qed
qed

lemma prefixCrossings_cong:
  assumes "\<forall>i < depth. pathRow p i = pathRow q i"
  shows "prefixCrossings g p depth = prefixCrossings g q depth"
proof -
  have "map (\<lambda>i. CountCrossingsIdx (newFastGraph g (RowIDs g) ! (i - 1)) (pathRow p (i - 1)) (pathRow p i)) [1 ..< depth]
      = map (\<lambda>i. CountCrossingsIdx (newFastGraph g (RowIDs g) ! (i - 1)) (pathRow q (i - 1)) (pathRow q i)) [1 ..< depth]"
    using assms by (intro map_cong) auto
  then show ?thesis unfolding prefixCrossings_def by (rule arg_cong)
qed

lemma prefixCrossings_Suc:
  "0 < depth \<Longrightarrow> prefixCrossings g p (Suc depth) = prefixCrossings g p depth +
     CountCrossingsIdx (newFastGraph g (RowIDs g) ! (depth - 1)) (pathRow p (depth - 1)) (pathRow p depth)"
  by (simp add: prefixCrossings_def)

lemma pathRow_update_other: "i \<noteq> d \<Longrightarrow> pathRow (p[d := x]) i = pathRow p i"
  by (simp add: pathRow_def)

lemma pathRow_update_same: "d < length p \<Longrightarrow> pathRow (p[d := Some xs]) d = xs"
  by (simp add: pathRow_def)

lemma pathRow_update_None: "d < length p \<Longrightarrow> pathRow (p[d := None]) d = []"
  by (simp add: pathRow_def)

lemma dfsOK_extend:
  assumes ok: "dfsOK g depth sc p" and d: "depth < length (RowIDs g)"
    and row: "rowOK g (RowIDs g ! depth) x"
    and sc': "sc' = sc + CountCrossingsIdx (newFastGraph g (RowIDs g) ! (depth - 1)) (pathRow p (depth - 1))
                      (case x of None \<Rightarrow> [] | Some xs \<Rightarrow> xs)"
  shows "dfsOK g (depth + 1) sc' (p[depth := x])"
proof -
  from ok have len: "length p = length (RowIDs g)" and pos: "0 < depth"
    and rows: "\<forall>i < depth. rowOK g (RowIDs g ! i) (p ! i)" and sc: "sc = prefixCrossings g p depth"
    by (simp_all add: dfsOK_def)
  let ?q = "p[depth := x]"
  have same: "\<forall>i < depth. pathRow ?q i = pathRow p i"
    by (simp add: pathRow_update_other)
  have at: "pathRow ?q depth = (case x of None \<Rightarrow> [] | Some xs \<Rightarrow> xs)"
    using d len by (simp add: pathRow_def)
  have "prefixCrossings g ?q (Suc depth) = prefixCrossings g ?q depth +
     CountCrossingsIdx (newFastGraph g (RowIDs g) ! (depth - 1)) (pathRow ?q (depth - 1)) (pathRow ?q depth)"
    using pos by (rule prefixCrossings_Suc)
  also have "prefixCrossings g ?q depth = prefixCrossings g p depth"
    using same by (rule prefixCrossings_cong)
  also have "pathRow ?q (depth - 1) = pathRow p (depth - 1)"
    using pos same by simp
  finally have score: "sc' = prefixCrossings g ?q (Suc depth)"
    using sc sc' at by simp
  have "\<forall>i < Suc depth. rowOK g (RowIDs g ! i) (?q ! i)"
  proof (intro allI impI)
    fix i assume "i < Suc depth"
    then show "rowOK g (RowIDs g ! i) (?q ! i)"
      using rows row d len by (cases "i = depth") auto
  qed
  then show ?thesis using len d score by (simp add: dfsOK_def)
qed

lemma starts_mset:
  assumes "generateStartPermutations g rows candLimit parallelRow prefix workerLimit = Some starts"
    and "xs \<in> set starts"
  shows "mset xs = mset (Seq (length (NodesInRow g (rows ! parallelRow))))"
proof (cases "parallelRow = 0")
  case True
  with assms have "xs \<in> set (Generate (length (NodesInRow g (rows ! parallelRow))) (- 1)) \<or>
                   xs \<in> set (Generate (length (NodesInRow g (rows ! parallelRow))) workerLimit)"
    by (auto simp: generateStartPermutations_def Let_def split: if_splits)
  then show ?thesis by (auto dest: Generate_mset)
next
  case False
  with assms obtain cands where
    c: "generateC1PCandidates g rows candLimit parallelRow (NodesInRow g (rows ! parallelRow))
          (pathRow prefix (parallelRow - 1)) (NodesInRow g (rows ! (parallelRow - 1))) = Some cands"
    and x: "xs \<in> set cands"
    by (auto simp: generateStartPermutations_def Let_def split: if_splits option.splits dest: in_set_takeD)
  from generateC1PCandidates_mset [OF c x] show ?thesis .
qed

lemma dfs_start_ok:
  assumes ne: "RowIDs g \<noteq> []"
    and bp: "buildPrefix g (RowIDs g) (findParallelRow g (RowIDs g)) = (prefix, prefixScore)"
    and st: "generateStartPermutations g (RowIDs g) candLimit (findParallelRow g (RowIDs g))
               prefix workerLimit = Some starts"
    and mem: "start \<in> set starts"
  shows "dfsOK g (findParallelRow g (RowIDs g) + 1)
           (prefixScore + (if findParallelRow g (RowIDs g) > 0
              then CountCrossingsIdx (newFastGraph g (RowIDs g) ! (findParallelRow g (RowIDs g) - 1))
                     (pathRow prefix (findParallelRow g (RowIDs g) - 1)) start
              else 0))
           (prefix[findParallelRow g (RowIDs g) := Some start])"
proof -
  let ?rows = "RowIDs g"
  let ?k = "findParallelRow g ?rows"
  let ?q = "prefix[?k := Some start]"
  have k: "?k < length ?rows" using ne by (rule findParallelRow_less)
  from bp have prefix: "prefix = map (\<lambda>depth. if depth < ?k
                                  then Some (Seq (length (NodesInRow g (?rows ! depth)))) else None)
                       [0 ..< length ?rows]"
    and ps: "prefixScore = prefixCrossings g prefix ?k"
    by (auto simp: buildPrefix_def Let_def prefixCrossings_def)
  have len: "length prefix = length ?rows" by (simp add: prefix)
  have same: "\<forall>i < ?k. pathRow ?q i = pathRow prefix i"
    by (simp add: pathRow_update_other)
  have at: "pathRow ?q ?k = start" using k len by (simp add: pathRow_def)
  have pc: "prefixCrossings g ?q ?k = prefixCrossings g prefix ?k"
    using same by (rule prefixCrossings_cong)
  have score: "prefixCrossings g ?q (Suc ?k) = prefixScore + (if ?k > 0
              then CountCrossingsIdx (newFastGraph g ?rows ! (?k - 1)) (pathRow prefix (?k - 1)) start
              else 0)"
  proof (cases "?k > 0")
    case True
    then have "pathRow ?q (?k - 1) = pathRow prefix (?k - 1)" using same by simp
    then show ?thesis using True pc ps at by (simp add: prefixCrossings_Suc)
  next
    case False
    then have "?k = 0" by simp
    then show ?thesis using ps by (simp add: prefixCrossings_def)
  qed
  have "\<forall>i < Suc ?k. rowOK g (?rows ! i) (?q ! i)"
  proof (intro allI impI)
    fix i assume i: "i < Suc ?k"
    show "rowOK g (?rows ! i) (?q ! i)"
    proof (cases "i = ?k")
      case True
      then show ?thesis using k len starts_mset [OF st mem] by (simp add: rowOK_def)
    next
      case False
      with i have "i < ?k" by simp
      then show ?thesis using k by (simp add: prefix rowOK_def)
    qed
  qed
  then show ?thesis using len k score by (simp add: dfsOK_def)
qed

lemma dfs_ok:
  assumes "dfs g workers depth sc p" "RowIDs g \<noteq> []"
  shows "dfsOK g depth sc p"
  using assms
proof (induction rule: dfs.induct)
  case (start rows parallelRow prefix prefixScore starts start sc)
  from start have pr: "parallelRow = findParallelRow g (RowIDs g)" by simp
  from start have bp: "buildPrefix g (RowIDs g) (findParallelRow g (RowIDs g)) = (prefix, prefixScore)"
    by simp
  from start have st: "generateStartPermutations g (RowIDs g) (calcCandidateLimit (int (length (RowIDs g))))
      (findParallelRow g (RowIDs g)) prefix (workers * 100) = Some starts"
    by simp
  from start have sc: "sc = prefixScore + (if findParallelRow g (RowIDs g) > 0
              then CountCrossingsIdx (newFastGraph g (RowIDs g) ! (findParallelRow g (RowIDs g) - 1))
                     (pathRow prefix (findParallelRow g (RowIDs g) - 1)) start
              else 0)"
    by simp
  show ?case unfolding sc pr by (rule dfs_start_ok [OF start.prems bp st start.hyps(5)])
next
  case (emptyRow depth sc p rows)
  then have ok: "dfsOK g depth sc p" and d: "depth < length (RowIDs g)" by simp_all
  have row: "rowOK g (RowIDs g ! depth) None" using emptyRow by (simp add: rowOK_def)
  from dfsOK_extend [OF ok d row, of sc] show ?case by simp
next
  case (candidate depth sc p rows nodes prevOrder candidates cand newScore)
  then have ok: "dfsOK g depth sc p" and d: "depth < length (RowIDs g)" by simp_all
  from candidate have "mset cand = mset (Seq (length nodes))"
    using generateC1PCandidates_mset by blast
  then have row: "rowOK g (RowIDs g ! depth) (Some cand)" using candidate by (simp add: rowOK_def)
  from dfsOK_extend [OF ok d row, of newScore] candidate show ?case by simp
qed

subsection \<open>Identifiers and row-local indices\<close>

lemma fold_index_notin:
  "y \<notin> set xs \<Longrightarrow> fold (\<lambda>(i, n) idx. idx(n \<mapsto> int i)) (List.enumerate k xs) m y = m y"
  by (induction xs arbitrary: k m) auto

lemma fold_index_nth:
  "distinct xs \<Longrightarrow> i < length xs
     \<Longrightarrow> fold (\<lambda>(i, n) idx. idx(n \<mapsto> int i)) (List.enumerate k xs) m (xs ! i) = Some (int (k + i))"
proof (induction xs arbitrary: k m i)
  case Nil
  then show ?case by simp
next
  case (Cons x xs)
  let ?F = "\<lambda>(i, n) idx. idx(n \<mapsto> int i)"
  have step: "fold ?F (List.enumerate k (x # xs)) m = fold ?F (List.enumerate (Suc k) xs) (m(x \<mapsto> int k))"
    by simp
  show ?case
  proof (cases i)
    case 0
    from Cons.prems have "x \<notin> set xs" by simp
    from fold_index_notin [OF this, of "Suc k" "m(x \<mapsto> int k)"]
    have "fold ?F (List.enumerate (Suc k) xs) (m(x \<mapsto> int k)) x = Some (int (k + 0))" by simp
    moreover have "(x # xs) ! i = x" using 0 by simp
    moreover have "int (k + 0) = int (k + i)" using 0 by simp
    ultimately show ?thesis unfolding step by (simp only:)
  next
    case (Suc j)
    from Cons.prems Suc have "distinct xs" "j < length xs" by simp_all
    then have "fold ?F (List.enumerate (Suc k) xs) (m(x \<mapsto> int k)) (xs ! j) = Some (int (Suc k + j))"
      by (rule Cons.IH)
    moreover have "(x # xs) ! i = xs ! j" using Suc by simp
    moreover have "int (Suc k + j) = int (k + i)" using Suc by simp
    ultimately show ?thesis unfolding step by (simp only:)
  qed
qed

lemma buildNodeIndex_nth:
  "distinct nodes \<Longrightarrow> i < length nodes \<Longrightarrow> buildNodeIndex nodes (nodes ! i) = Some (int i)"
  using fold_index_nth [of nodes i 0 Map.empty] by (simp add: buildNodeIndex_def)

lemma buildNodeIndex_None: "x \<notin> set nodes \<Longrightarrow> buildNodeIndex nodes x = None"
  using fold_index_notin [of x nodes 0 Map.empty] by (simp add: buildNodeIndex_def)

lemma fillIndices_eq:
  "j + length ids \<le> length indices
     \<Longrightarrow> fillIndices idx ids j indices
         = Some (take j indices @ map (indexOr0 idx) ids @ drop (j + length ids) indices)"
proof (induction ids arbitrary: j indices)
  case Nil
  then show ?case by simp
next
  case (Cons ident rest)
  let ?v = "indexOr0 idx ident"
  let ?ind = "indices[j := ?v]"
  from Cons.prems have j: "j < length indices" by simp
  from Cons.prems have "(j + 1) + length rest \<le> length ?ind" by simp
  from Cons.IH [OF this]
  have "fillIndices idx rest (j + 1) ?ind
         = Some (take (j + 1) ?ind @ map (indexOr0 idx) rest @ drop (j + 1 + length rest) ?ind)" .
  moreover have "take (j + 1) ?ind = take j indices @ [?v]"
    using j by (simp add: take_Suc_conv_app_nth)
  moreover have "drop (j + 1 + length rest) ?ind = drop (j + length (ident # rest)) indices"
    by simp
  ultimately show ?case using j by (simp add: indexOr0_def)
qed

lemma fillIndices_full:
  "length ids = n \<Longrightarrow> fillIndices idx ids 0 (replicate n 0) = Some (map (indexOr0 idx) ids)"
  using fillIndices_eq [of 0 ids "replicate n 0" idx] by simp

lemma toIndexRows_eq:
  "\<forall>r \<in> set rows. length (mapOrder order r) = length (NodesInRow g r)
     \<Longrightarrow> toIndexRows g rows order
         = Some (map (\<lambda>r. Some (map (indexOr0 (buildNodeIndex (NodesInRow g r))) (mapOrder order r))) rows)"
  by (induction rows) (simp_all add: fillIndices_full)

lemma map_filter_total:
  "\<forall>x \<in> set xs. idx x \<noteq> None \<Longrightarrow> List.map_filter idx xs = map (indexOr0 idx) xs"
  by (induction xs) (auto simp: map_filter_simps indexOr0_def)

lemma map_filter_inverse:
  "\<forall>x \<in> set xs. f (h x) = Some x \<Longrightarrow> List.map_filter f (map h xs) = xs"
  by (induction xs) (auto simp: map_filter_simps)

lemma buildNodeIndex_mem:
  assumes "distinct nodes" "x \<in> set nodes"
  shows "buildNodeIndex nodes x \<noteq> None"
proof -
  from assms(2) obtain i where "i < length nodes" "nodes ! i = x" by (auto simp: in_set_conv_nth)
  with buildNodeIndex_nth [OF assms(1), of i] show ?thesis by auto
qed

lemma indexOr0_nodes:
  assumes "distinct nodes"
  shows "map (indexOr0 (buildNodeIndex nodes)) nodes = Seq (length nodes)"
proof (rule nth_equalityI)
  show "length (map (indexOr0 (buildNodeIndex nodes)) nodes) = length (Seq (length nodes))"
    by (simp add: Seq_def)
next
  fix i assume "i < length (map (indexOr0 (buildNodeIndex nodes)) nodes)"
  then have i: "i < length nodes" by simp
  then show "map (indexOr0 (buildNodeIndex nodes)) nodes ! i = Seq (length nodes) ! i"
    using buildNodeIndex_nth [OF assms i] by (simp add: indexOr0_def Seq_def)
qed

lemma indices_of_perm:
  assumes "distinct nodes" "mset ids = mset nodes"
  shows "idsToIndices ids (buildNodeIndex nodes) = map (indexOr0 (buildNodeIndex nodes)) ids"
    and "mset (map (indexOr0 (buildNodeIndex nodes)) ids) = mset (Seq (length nodes))"
proof -
  from assms(2) have "set ids = set nodes" by (rule mset_eq_setD)
  then have "\<forall>x \<in> set ids. buildNodeIndex nodes x \<noteq> None"
    using buildNodeIndex_mem [OF assms(1)] by simp
  then show "idsToIndices ids (buildNodeIndex nodes) = map (indexOr0 (buildNodeIndex nodes)) ids"
    unfolding idsToIndices_def by (rule map_filter_total)
  have "mset (map (indexOr0 (buildNodeIndex nodes)) ids)
        = image_mset (indexOr0 (buildNodeIndex nodes)) (mset ids)" by simp
  also have "\<dots> = mset (map (indexOr0 (buildNodeIndex nodes)) nodes)" using assms(2) by simp
  finally show "mset (map (indexOr0 (buildNodeIndex nodes)) ids) = mset (Seq (length nodes))"
    using indexOr0_nodes [OF assms(1)] by simp
qed

lemma Seq_range:
  assumes "mset xs = mset (Seq n)" "x \<in> set xs"
  shows "0 \<le> x \<and> nat x < n"
proof -
  from assms(1) have "set xs = set (Seq n)" by (rule mset_eq_setD)
  with assms(2) show ?thesis by (auto simp: Seq_def)
qed

lemma rowIds_eq:
  "\<forall>x \<in> set xs. 0 \<le> x \<and> nat x < length nodes
     \<Longrightarrow> rowIds nodes xs = Some (map (\<lambda>x. nodes ! nat x) xs)"
  by (induction xs) (auto simp: index_def)

lemma ids_of_perm:
  assumes "distinct nodes" "mset xs = mset (Seq (length nodes))"
  shows "rowIds nodes xs = Some (map (\<lambda>x. nodes ! nat x) xs)"
    and "mset (map (\<lambda>x. nodes ! nat x) xs) = mset nodes"
    and "idsToIndices (map (\<lambda>x. nodes ! nat x) xs) (buildNodeIndex nodes) = xs"
proof -
  have range: "\<forall>x \<in> set xs. 0 \<le> x \<and> nat x < length nodes"
    using Seq_range [OF assms(2)] by simp
  then show "rowIds nodes xs = Some (map (\<lambda>x. nodes ! nat x) xs)" by (rule rowIds_eq)
  have "mset (map (\<lambda>x. nodes ! nat x) xs) = image_mset (\<lambda>x. nodes ! nat x) (mset xs)" by simp
  also have "\<dots> = mset (map (\<lambda>x. nodes ! nat x) (Seq (length nodes)))" using assms(2) by simp
  also have "map (\<lambda>x. nodes ! nat x) (Seq (length nodes)) = map (\<lambda>i. nodes ! i) [0 ..< length nodes]"
    by (simp add: Seq_def comp_def)
  also have "\<dots> = nodes" by (rule map_nth)
  finally show "mset (map (\<lambda>x. nodes ! nat x) xs) = mset nodes" .
  have "\<forall>x \<in> set xs. buildNodeIndex nodes (nodes ! nat x) = Some x"
    using range buildNodeIndex_nth [OF assms(1)] by auto
  then show "idsToIndices (map (\<lambda>x. nodes ! nat x) xs) (buildNodeIndex nodes) = xs"
    unfolding idsToIndices_def by (rule map_filter_inverse)
qed

section \<open>The result of \<open>OrderRows\<close>\<close>

lemma toStringRows_ok:
  assumes "distinct rows" "\<forall>r \<in> set rows. distinct (NodesInRow g r)"
    and "i + length rows \<le> length p"
    and "\<forall>k < length rows. rowOK g (rows ! k) (p ! (i + k))"
  shows "\<exists>os. toStringRows (NodesInRow g) rows p i result = Some os \<and>
           (\<forall>k < length rows. os (rows ! k) =
              (case p ! (i + k) of None \<Rightarrow> result (rows ! k)
               | Some xs \<Rightarrow> Some (map (\<lambda>x. NodesInRow g (rows ! k) ! nat x) xs))) \<and>
           (\<forall>r. r \<notin> set rows \<longrightarrow> os r = result r)"
  using assms
proof (induction rows arbitrary: i result)
  case Nil
  then show ?case by simp
next
  case (Cons r rows)
  from Cons.prems have dr: "distinct rows" and rn: "r \<notin> set rows"
    and dn: "\<forall>r \<in> set rows. distinct (NodesInRow g r)" and dr0: "distinct (NodesInRow g r)"
    and len: "(i + 1) + length rows \<le> length p" and i: "i < length p"
    by simp_all
  have oks: "\<forall>k < length rows. rowOK g (rows ! k) (p ! ((i + 1) + k))"
  proof (intro allI impI)
    fix k assume "k < length rows"
    then have "Suc k < length (r # rows)" by simp
    with Cons.prems(4) have "rowOK g ((r # rows) ! Suc k) (p ! (i + Suc k))" by blast
    then show "rowOK g (rows ! k) (p ! ((i + 1) + k))" by simp
  qed
  from Cons.prems(4) have ok0: "rowOK g r (p ! i)" by fastforce
  show ?case
  proof (cases "p ! i")
    case None
    from Cons.IH [OF dr dn len oks, of result] obtain os where
      os: "toStringRows (NodesInRow g) rows p (i + 1) result = Some os"
      and at: "\<forall>k < length rows. os (rows ! k) =
              (case p ! ((i + 1) + k) of None \<Rightarrow> result (rows ! k)
               | Some xs \<Rightarrow> Some (map (\<lambda>x. NodesInRow g (rows ! k) ! nat x) xs))"
      and out: "\<forall>r. r \<notin> set rows \<longrightarrow> os r = result r"
      by blast
    have run: "toStringRows (NodesInRow g) (r # rows) p i result = Some os"
      using None os by simp
    have "\<forall>k < length (r # rows). os ((r # rows) ! k) =
              (case p ! (i + k) of None \<Rightarrow> result ((r # rows) ! k)
               | Some xs \<Rightarrow> Some (map (\<lambda>x. NodesInRow g ((r # rows) ! k) ! nat x) xs))"
    proof (intro allI impI)
      fix k assume k: "k < length (r # rows)"
      show "os ((r # rows) ! k) =
              (case p ! (i + k) of None \<Rightarrow> result ((r # rows) ! k)
               | Some xs \<Rightarrow> Some (map (\<lambda>x. NodesInRow g ((r # rows) ! k) ! nat x) xs))"
      proof (cases k)
        case 0
        then show ?thesis using None out rn by simp
      next
        case (Suc j)
        with k have "j < length rows" by simp
        with at show ?thesis using Suc by (simp split: option.splits)
      qed
    qed
    moreover have "\<forall>r'. r' \<notin> set (r # rows) \<longrightarrow> os r' = result r'" using out by simp
    ultimately show ?thesis using run by blast
  next
    case (Some xs)
    let ?ids = "map (\<lambda>x. NodesInRow g r ! nat x) xs"
    from ok0 Some have "mset xs = mset (Seq (length (NodesInRow g r)))" by (simp add: rowOK_def)
    from ids_of_perm(1) [OF dr0 this] have ri: "rowIds (NodesInRow g r) xs = Some ?ids" .
    from Cons.IH [OF dr dn len oks, of "result(r \<mapsto> ?ids)"] obtain os where
      os: "toStringRows (NodesInRow g) rows p (i + 1) (result(r \<mapsto> ?ids)) = Some os"
      and at: "\<forall>k < length rows. os (rows ! k) =
              (case p ! ((i + 1) + k) of None \<Rightarrow> (result(r \<mapsto> ?ids)) (rows ! k)
               | Some xs \<Rightarrow> Some (map (\<lambda>x. NodesInRow g (rows ! k) ! nat x) xs))"
      and out: "\<forall>r'. r' \<notin> set rows \<longrightarrow> os r' = (result(r \<mapsto> ?ids)) r'"
      by blast
    have run: "toStringRows (NodesInRow g) (r # rows) p i result = Some os"
      using Some os ri i by (simp add: pathRow_def)
    have "\<forall>k < length (r # rows). os ((r # rows) ! k) =
              (case p ! (i + k) of None \<Rightarrow> result ((r # rows) ! k)
               | Some xs \<Rightarrow> Some (map (\<lambda>x. NodesInRow g ((r # rows) ! k) ! nat x) xs))"
    proof (intro allI impI)
      fix k assume k: "k < length (r # rows)"
      show "os ((r # rows) ! k) =
              (case p ! (i + k) of None \<Rightarrow> result ((r # rows) ! k)
               | Some xs \<Rightarrow> Some (map (\<lambda>x. NodesInRow g ((r # rows) ! k) ! nat x) xs))"
      proof (cases k)
        case 0
        then show ?thesis using Some out rn by simp
      next
        case (Suc j)
        with k have j: "j < length rows" by simp
        then have "rows ! j \<noteq> r" using rn by auto
        with at j show ?thesis using Suc by (simp split: option.splits)
      qed
    qed
    moreover have "\<forall>r'. r' \<notin> set (r # rows) \<longrightarrow> os r' = result r'" using out by simp
    ultimately show ?thesis using run by blast
  qed
qed

lemma toStringOrder_ok:
  assumes "distinctIDs g" "pathOK g p"
  shows "\<exists>os. toStringOrder (NodesInRow g) (RowIDs g) p = Some (goMap os) \<and>
           (\<forall>k < length (RowIDs g).
              mset (rowOrder os (RowIDs g ! k)) = mset (NodesInRow g (RowIDs g ! k)) \<and>
              (NodesInRow g (RowIDs g ! k) \<noteq> [] \<longrightarrow> os (RowIDs g ! k) \<noteq> None) \<and>
              idsToIndices (rowOrder os (RowIDs g ! k)) (buildNodeIndex (NodesInRow g (RowIDs g ! k)))
                = pathRow p k)"
proof -
  let ?rows = "RowIDs g"
  from assms(1) have dr: "distinct ?rows" and dn: "\<forall>r \<in> set ?rows. distinct (NodesInRow g r)"
    by (simp_all add: distinctIDs_def)
  from assms(2) have len: "0 + length ?rows \<le> length p"
    and oks: "\<forall>k < length ?rows. rowOK g (?rows ! k) (p ! (0 + k))"
    by (simp_all add: pathOK_def)
  from toStringRows_ok [OF dr dn len oks, of Map.empty] obtain os where
    os: "toStringRows (NodesInRow g) ?rows p 0 Map.empty = Some os"
    and at: "\<forall>k < length ?rows. os (?rows ! k) =
              (case p ! k of None \<Rightarrow> None
               | Some xs \<Rightarrow> Some (map (\<lambda>x. NodesInRow g (?rows ! k) ! nat x) xs))"
    by auto
  have "\<forall>k < length ?rows.
              mset (rowOrder os (?rows ! k)) = mset (NodesInRow g (?rows ! k)) \<and>
              (NodesInRow g (?rows ! k) \<noteq> [] \<longrightarrow> os (?rows ! k) \<noteq> None) \<and>
              idsToIndices (rowOrder os (?rows ! k)) (buildNodeIndex (NodesInRow g (?rows ! k)))
                = pathRow p k"
  proof (intro allI impI)
    fix k assume k: "k < length ?rows"
    let ?nodes = "NodesInRow g (?rows ! k)"
    from k dn have d: "distinct ?nodes" by simp
    from k oks have ok: "rowOK g (?rows ! k) (p ! k)" by simp
    show "mset (rowOrder os (?rows ! k)) = mset ?nodes \<and>
              (?nodes \<noteq> [] \<longrightarrow> os (?rows ! k) \<noteq> None) \<and>
              idsToIndices (rowOrder os (?rows ! k)) (buildNodeIndex ?nodes) = pathRow p k"
    proof (cases "p ! k")
      case None
      with at k have "os (?rows ! k) = None" by simp
      moreover from ok None have "?nodes = []" by (simp add: rowOK_def)
      ultimately show ?thesis using None
        by (simp add: rowOrder_def pathRow_def idsToIndices_def map_filter_simps)
    next
      case (Some xs)
      with at k have o: "os (?rows ! k) = Some (map (\<lambda>x. ?nodes ! nat x) xs)" by simp
      from ok Some have m: "mset xs = mset (Seq (length ?nodes))" by (simp add: rowOK_def)
      from ids_of_perm(2,3) [OF d m] o Some show ?thesis
        by (simp add: rowOrder_def pathRow_def)
    qed
  qed
  then show ?thesis using os by (auto simp: toStringOrder_def)
qed

lemma CountCrossings_path:
  assumes "\<forall>k < length (RowIDs g).
             idsToIndices (mapOrder m (RowIDs g ! k)) (buildNodeIndex (NodesInRow g (RowIDs g ! k)))
               = pathRow p k"
  shows "CountCrossings g m = prefixCrossings g p (length (RowIDs g))"
proof -
  let ?rows = "RowIDs g"
  let ?q = "map (\<lambda>r. idsToIndices (mapOrder m r) (buildNodeIndex (NodesInRow g r))) ?rows"
  let ?E = "newFastGraph g ?rows"
  have "map (\<lambda>i. CountCrossingsIdx (?E ! (i - 1)) (?q ! (i - 1)) (?q ! i)) [1 ..< length ?rows]
      = map (\<lambda>i. CountCrossingsIdx (?E ! (i - 1)) (pathRow p (i - 1)) (pathRow p i)) [1 ..< length ?rows]"
    using assms by (intro map_cong) auto
  then have "sum_list (map (\<lambda>i. CountCrossingsIdx (?E ! (i - 1)) (?q ! (i - 1)) (?q ! i)) [1 ..< length ?rows])
      = prefixCrossings g p (length ?rows)"
    unfolding prefixCrossings_def by (rule arg_cong)
  moreover have "CountCrossings g m
      = sum_list (map (\<lambda>i. CountCrossingsIdx (?E ! (i - 1)) (?q ! (i - 1)) (?q ! i)) [1 ..< length ?rows])"
    by (simp add: CountCrossings_def pathScore_def Let_def)
  ultimately show ?thesis by simp
qed

lemma initial_rows:
  assumes "RowIDs g \<noteq> []" "r \<in> set (RowIDs g)"
  shows "mset (mapOrder (Barycentric_OrderRows bPasses g) r) = mset (NodesInRow g r)"
proof -
  from Barycentric_OrderRows_ok [OF assms(1), of bPasses] obtain os where
    os: "Barycentric_OrderRows bPasses g = goMap os" and ok: "ordersOK g os"
    and cover: "ordersCover g (RowIDs g) os"
    by blast
  show ?thesis
  proof (cases "os r")
    case None
    with cover assms(2) have "NodesInRow g r = []" by (auto simp: ordersCover_def)
    then show ?thesis using None os by (simp add: mapOrder_def rowOrder_def)
  next
    case (Some ids)
    with ok have "mset ids = mset (NodesInRow g r)" by (simp add: ordersOK_def)
    then show ?thesis using Some os by (simp add: mapOrder_def rowOrder_def)
  qed
qed

lemma initial_path:
  assumes "distinctIDs g" "RowIDs g \<noteq> []"
  shows "\<exists>ip. toIndexPath g (RowIDs g) (Barycentric_OrderRows bPasses g) = Some ip \<and> pathOK g ip \<and>
           (\<forall>k < length (RowIDs g). pathRow ip k =
              idsToIndices (mapOrder (Barycentric_OrderRows bPasses g) (RowIDs g ! k))
                (buildNodeIndex (NodesInRow g (RowIDs g ! k))))"
proof -
  let ?rows = "RowIDs g"
  let ?init = "Barycentric_OrderRows bPasses g"
  let ?ip = "map (\<lambda>r. Some (map (indexOr0 (buildNodeIndex (NodesInRow g r))) (mapOrder ?init r))) ?rows"
  have ms: "\<forall>r \<in> set ?rows. mset (mapOrder ?init r) = mset (NodesInRow g r)"
    using initial_rows [OF assms(2)] by blast
  then have "\<forall>r \<in> set ?rows. length (mapOrder ?init r) = length (NodesInRow g r)"
    by (auto dest: mset_eq_length)
  then have run: "toIndexPath g ?rows ?init = Some ?ip"
    unfolding toIndexPath_def by (rule toIndexRows_eq)
  have each: "\<forall>k < length ?rows. rowOK g (?rows ! k) (?ip ! k) \<and> pathRow ?ip k =
              idsToIndices (mapOrder ?init (?rows ! k)) (buildNodeIndex (NodesInRow g (?rows ! k)))"
  proof (intro allI impI)
    fix k assume k: "k < length ?rows"
    let ?nodes = "NodesInRow g (?rows ! k)"
    from k assms(1) have d: "distinct ?nodes" by (simp add: distinctIDs_def)
    from k ms have m: "mset (mapOrder ?init (?rows ! k)) = mset ?nodes" by simp
    from indices_of_perm [OF d m] k
    show "rowOK g (?rows ! k) (?ip ! k) \<and> pathRow ?ip k =
              idsToIndices (mapOrder ?init (?rows ! k)) (buildNodeIndex ?nodes)"
      by (simp add: rowOK_def pathRow_def)
  qed
  then have "pathOK g ?ip" by (simp add: pathOK_def)
  with run each show ?thesis by blast
qed

lemma OrderRows_search:
  assumes d: "distinctIDs g" and so: "searchOutcome g workers final"
    and ne: "RowIDs g \<noteq> []" and nz: "CountCrossings g (Barycentric_OrderRows 0 g) \<noteq> 0"
  shows "\<exists>os. OrderRows g final = Some (goMap os) \<and>
           (\<forall>k < length (RowIDs g).
              mset (rowOrder os (RowIDs g ! k)) = mset (NodesInRow g (RowIDs g ! k)) \<and>
              (NodesInRow g (RowIDs g ! k) \<noteq> [] \<longrightarrow> os (RowIDs g ! k) \<noteq> None)) \<and>
           CountCrossings g (goMap os) \<le> CountCrossings g (Barycentric_OrderRows 0 g)"
proof -
  let ?rows = "RowIDs g"
  let ?init = "Barycentric_OrderRows 0 g"
  from initial_path [OF d ne, of 0] obtain ip where
    ip: "toIndexPath g ?rows ?init = Some ip" and ipok: "pathOK g ip"
    and iprows: "\<forall>k < length ?rows. pathRow ip k =
              idsToIndices (mapOrder ?init (?rows ! k)) (buildNodeIndex (NodesInRow g (?rows ! k)))"
    by blast
  have run: "OrderRows g final = toStringOrder (NodesInRow g) ?rows final"
    using ne nz ip by (simp add: OrderRows_def Let_def)
  from so ip have "searchResult g workers (CountCrossings g ?init) ip final"
    by (simp add: searchOutcome_def)
  then have cases: "final = ip \<or> (\<exists>sc. sc < CountCrossings g ?init \<and> dfs g workers (length ?rows) sc final)"
    by (rule searchResult_cases)
  have init: "CountCrossings g ?init = prefixCrossings g ip (length ?rows)"
    using iprows by (intro CountCrossings_path) simp
  from cases have fin: "pathOK g final \<and> prefixCrossings g final (length ?rows) \<le> CountCrossings g ?init"
  proof
    assume "final = ip"
    then show ?thesis using ipok init by simp
  next
    assume "\<exists>sc. sc < CountCrossings g ?init \<and> dfs g workers (length ?rows) sc final"
    then obtain sc where sc: "sc < CountCrossings g ?init" and df: "dfs g workers (length ?rows) sc final"
      by blast
    from dfs_ok [OF df ne] have "dfsOK g (length ?rows) sc final" .
    then show ?thesis using sc by (simp add: dfsOK_def pathOK_def)
  qed
  from toStringOrder_ok [OF d] fin obtain os where
    os: "toStringOrder (NodesInRow g) ?rows final = Some (goMap os)"
    and rows: "\<forall>k < length ?rows.
              mset (rowOrder os (?rows ! k)) = mset (NodesInRow g (?rows ! k)) \<and>
              (NodesInRow g (?rows ! k) \<noteq> [] \<longrightarrow> os (?rows ! k) \<noteq> None) \<and>
              idsToIndices (rowOrder os (?rows ! k)) (buildNodeIndex (NodesInRow g (?rows ! k)))
                = pathRow final k"
    by blast
  have "CountCrossings g (goMap os) = prefixCrossings g final (length ?rows)"
    using rows by (intro CountCrossings_path) (simp add: mapOrder_def)
  with fin have "CountCrossings g (goMap os) \<le> CountCrossings g ?init" by simp
  with run os rows show ?thesis by auto
qed

subsection \<open>A graph on which the search runs\<close>

lemma mset_two: "mset xs = mset [x, y] \<Longrightarrow> xs = [x, y] \<or> xs = [y, x]"
proof -
  assume a: "mset xs = mset [x, y]"
  then have "size (mset xs) = size (mset [x, y])" by simp
  then have "length xs = 2" by simp
  then obtain u v where xs: "xs = [u, v]"
    by (cases xs; cases "tl xs"; cases "tl (tl xs)") auto
  with a have "{#u, v#} = {#x, y#}" by simp
  then show ?thesis using xs by (auto simp: add_eq_conv_ex)
qed

lemma crossDAG_rows [simp]:
  "RowIDs crossDAG = [0, 1]" "NodesInRow crossDAG 0 = [''a'', ''b'']"
  "NodesInRow crossDAG 1 = [''c'', ''d'']"
  by (simp_all add: crossDAG_def)

lemma crossDAG_score_rows:
  assumes "xs = [''a'', ''b''] \<or> xs = [''b'', ''a'']" "ys = [''c'', ''d''] \<or> ys = [''d'', ''c'']"
  shows "pathScore (newFastGraph crossDAG [0, 1])
           [idsToIndices xs (buildNodeIndex [''a'', ''b'']), idsToIndices ys (buildNodeIndex [''c'', ''d''])] = 1"
  using assms by (elim disjE; hypsubst) code_simp+

lemma crossDAG_score:
  assumes "ordersOK crossDAG os" "ordersCover crossDAG [0, 1] os"
  shows "CountCrossings crossDAG (goMap os) = 1"
proof -
  have "mset (rowOrder os 0) = mset (NodesInRow crossDAG 0)"
    using rowOrder_mset [OF assms, of 0] by simp
  then have x: "rowOrder os 0 = [''a'', ''b''] \<or> rowOrder os 0 = [''b'', ''a'']"
    by (intro mset_two) simp
  have "mset (rowOrder os 1) = mset (NodesInRow crossDAG 1)"
    using rowOrder_mset [OF assms, of 1] by simp
  then have y: "rowOrder os 1 = [''c'', ''d''] \<or> rowOrder os 1 = [''d'', ''c'']"
    by (intro mset_two) simp
  have "CountCrossings crossDAG (goMap os) = pathScore (newFastGraph crossDAG [0, 1])
           [idsToIndices (rowOrder os 0) (buildNodeIndex [''a'', ''b'']),
            idsToIndices (rowOrder os 1) (buildNodeIndex [''c'', ''d''])]"
    by (simp add: CountCrossings_def mapOrder_def)
  with crossDAG_score_rows [OF x y] show ?thesis by simp
qed

lemma runPassesLoop_constant:
  assumes const: "\<forall>os. ordersOK g os \<longrightarrow> ordersCover g R os \<longrightarrow> CountCrossings g (goMap os) = c"
  shows "ordersOK g os \<Longrightarrow> ordersCover g R os
     \<Longrightarrow> runPassesLoop g rows passes pass os best c stale = (best, c)"
  using const
proof (induction g rows passes pass os best c stale rule: runPassesLoop.induct)
  case (1 g rows passes pass os best bestSc staleCount)
  show ?case
  proof (cases "pass < passes \<and> bestSc > 0")
    case False
    then show ?thesis by (subst runPassesLoop.simps) auto
  next
    case True
    define os' where "os' = (if pass mod 2 = 0 then sweepDown g rows os else sweepUp g rows os)"
    define sc where "sc = CountCrossings g (goMap os')"
    define best' where "best' = (if sc < bestSc then copyOrders os' else best)"
    define bestSc' where "bestSc' = (if sc < bestSc then sc else bestSc)"
    define stale' where "stale' = (if sc < bestSc then 0 else staleCount + 1)"
    have o: "ordersOK g os'" "ordersCover g R os'"
      using sweepDown_ok [OF "1.prems"(1,2)] sweepUp_ok [OF "1.prems"(1,2)] by (simp_all add: os'_def)
    with "1.prems"(3) have sc: "sc = bestSc" unfolding sc_def by blast
    then have same: "best' = best" "bestSc' = bestSc" by (simp_all add: best'_def bestSc'_def)
    have unf: "runPassesLoop g rows passes pass os best bestSc staleCount =
        (if stale' \<ge> 4 \<and> sc = bestSc then (best', bestSc')
         else runPassesLoop g rows passes (pass + 1) os' best' bestSc' stale')"
      using True
      by (subst runPassesLoop.simps) (simp add: Let_def os'_def sc_def best'_def bestSc'_def stale'_def)
    show ?thesis
    proof (cases "stale' \<ge> 4 \<and> sc = bestSc")
      case True
      with unf same show ?thesis by simp
    next
      case False
      have "runPassesLoop g rows passes (pass + 1) os' best' bestSc' stale' = (best', bestSc')"
        using o False "1.prems"(3) same
        by (intro "1.IH" [OF True refl os'_def sc_def best'_def bestSc'_def stale'_def])
           (simp_all)
      with unf False same show ?thesis by simp
    qed
  qed
qed

lemma runPasses_constant:
  assumes "\<forall>os. ordersOK g os \<longrightarrow> ordersCover g R os \<longrightarrow> CountCrossings g (goMap os) = c"
    and "ordersOK g init" "ordersCover g R init"
  shows "runPasses g rows init passes = (init, c)"
proof -
  from assms have "CountCrossings g (goMap init) = c" by blast
  then show ?thesis
    using runPassesLoop_constant [OF assms, of rows passes 0 init 0]
    by (simp add: runPasses_def copyOrders_def)
qed

lemma Barycentric_constant:
  assumes const: "\<forall>os. ordersOK g os \<longrightarrow> ordersCover g (RowIDs g) os \<longrightarrow> CountCrossings g (goMap os) = c"
    and ne: "RowIDs g \<noteq> []"
  shows "Barycentric_OrderRows bPasses g = goMap (initOrders g (RowIDs g))"
proof -
  let ?best = "initOrders g (RowIDs g)"
  from initOrders_ok [OF ne, of g] have ok: "ordersOK g ?best" "ordersCover g (RowIDs g) ?best"
    by simp_all
  with const have sc: "CountCrossings g (goMap ?best) = c" by blast
  have r1: "runPasses g (RowIDs g) ?best passes = (?best, c)" for passes
    using const ok by (rule runPasses_constant)
  from reverseOrders_ok [OF ok] have
    "ordersOK g (reverseOrders ?best (RowIDs g))" "ordersCover g (RowIDs g) (reverseOrders ?best (RowIDs g))"
    by simp_all
  with const have r2: "runPasses g (RowIDs g) (reverseOrders ?best (RowIDs g)) passes
      = (reverseOrders ?best (RowIDs g), c)" for passes
    by (rule runPasses_constant)
  show ?thesis using ne sc r1 r2 by (simp add: Barycentric_OrderRows_def Let_def)
qed

lemma crossDAG_Barycentric:
  "Barycentric_OrderRows 0 crossDAG = goMap (initOrders crossDAG [0, 1])"
  using Barycentric_constant [of crossDAG 1 0] crossDAG_score by simp

lemma crossDAG_initial:
  "map (rowOrder (initOrders crossDAG [0, 1])) [0, 1] = [[''a'', ''b''], [''c'', ''d'']]"
  by code_simp

lemma crossDAG_path:
  "toIndexPath crossDAG (RowIDs crossDAG) (Barycentric_OrderRows 0 crossDAG)
     = Some [Some [0, 1], Some [0, 1]]"
  unfolding crossDAG_Barycentric by code_simp

lemma crossDAG_initialScore:
  "CountCrossings crossDAG (Barycentric_OrderRows 0 crossDAG) = 1"
  unfolding crossDAG_Barycentric by code_simp

text \<open>
  C2: on a graph with unique row numbers and node identifiers, whatever path the search
  leaves in \<open>bestPath\<close>, \<open>OrderRows\<close> returns a map, and the map gives every non-empty
  row of the graph a list with the same elements, with the same multiplicities, as the node
  identifiers of the row: a permutation of them, each identifier once.
\<close>

theorem OrderRows_permutation:
  assumes "distinctIDs g" "searchOutcome g workers final"
  shows "\<exists>m. OrderRows g final = Some m \<and>
           (\<forall>r \<in> set (RowIDs g). NodesInRow g r \<noteq> [] \<longrightarrow>
              (\<exists>ids. assigned m r = Some ids \<and> mset ids = mset (NodesInRow g r) \<and> distinct ids))"
proof -
  have dist: "distinct ids" if "r \<in> set (RowIDs g)" "mset ids = mset (NodesInRow g r)" for r ids
  proof -
    from that(1) assms(1) have "distinct (NodesInRow g r)" by (simp add: distinctIDs_def)
    with mset_eq_imp_distinct_iff [OF that(2)] show ?thesis by (simp only:)
  qed
  show ?thesis
  proof (cases "RowIDs g = []")
    case True
    then show ?thesis by (simp add: OrderRows_def)
  next
    case ne: False
    show ?thesis
    proof (cases "CountCrossings g (Barycentric_OrderRows 0 g) = 0")
      case True
      from Barycentric_OrderRows_ok [OF ne, of 0] obtain os where
        os: "Barycentric_OrderRows 0 g = goMap os" and ok: "ordersOK g os"
        and cover: "ordersCover g (RowIDs g) os"
        by blast
      have "OrderRows g final = Some (goMap os)" using ne True os by (simp add: OrderRows_def Let_def)
      moreover have "\<forall>r \<in> set (RowIDs g). NodesInRow g r \<noteq> [] \<longrightarrow>
                (\<exists>ids. assigned (goMap os) r = Some ids \<and> mset ids = mset (NodesInRow g r) \<and> distinct ids)"
      proof (intro ballI impI)
        fix r assume r: "r \<in> set (RowIDs g)" and n: "NodesInRow g r \<noteq> []"
        from cover r n obtain ids where ids: "os r = Some ids" by (auto simp: ordersCover_def)
        with ok have m: "mset ids = mset (NodesInRow g r)" by (simp add: ordersOK_def)
        from dist [OF r m] ids m
        show "\<exists>ids. assigned (goMap os) r = Some ids \<and> mset ids = mset (NodesInRow g r) \<and> distinct ids"
          by (simp add: assigned_def)
      qed
      ultimately show ?thesis by blast
    next
      case False
      from OrderRows_search [OF assms ne False] obtain os where
        run: "OrderRows g final = Some (goMap os)"
        and rows: "\<forall>k < length (RowIDs g).
                mset (rowOrder os (RowIDs g ! k)) = mset (NodesInRow g (RowIDs g ! k)) \<and>
                (NodesInRow g (RowIDs g ! k) \<noteq> [] \<longrightarrow> os (RowIDs g ! k) \<noteq> None)"
        by blast
      have "\<forall>r \<in> set (RowIDs g). NodesInRow g r \<noteq> [] \<longrightarrow>
                (\<exists>ids. assigned (goMap os) r = Some ids \<and> mset ids = mset (NodesInRow g r) \<and> distinct ids)"
      proof (intro ballI impI)
        fix r assume r: "r \<in> set (RowIDs g)" and n: "NodesInRow g r \<noteq> []"
        from r obtain k where k: "k < length (RowIDs g)" "RowIDs g ! k = r"
          by (auto simp: in_set_conv_nth)
        with rows n have "mset (rowOrder os r) = mset (NodesInRow g r)" "os r \<noteq> None" by auto
        then obtain ids where ids: "os r = Some ids" and m: "mset ids = mset (NodesInRow g r)"
          by (auto simp: rowOrder_def)
        from dist [OF r m] ids m
        show "\<exists>ids. assigned (goMap os) r = Some ids \<and> mset ids = mset (NodesInRow g r) \<and> distinct ids"
          by (simp add: assigned_def)
      qed
      with run show ?thesis by blast
    qed
  qed
qed

theorem OrderRows_permutation_witness:
  "distinctIDs crossDAG \<and> searchOutcome crossDAG 1 [Some [0, 1], Some [0, 1]] \<and>
   (\<exists>m. OrderRows crossDAG [Some [0, 1], Some [0, 1]] = Some m \<and>
        (\<exists>ids. assigned m 0 = Some ids \<and> mset ids = mset [''a'', ''b''] \<and> distinct ids) \<and>
        (\<exists>ids. assigned m 1 = Some ids \<and> mset ids = mset [''c'', ''d''] \<and> distinct ids))"
proof -
  have d: "distinctIDs crossDAG" by (simp add: distinctIDs_def)
  have so: "searchOutcome crossDAG 1 [Some [0, 1], Some [0, 1]]"
    using crossDAG_path by (rule searchOutcome_initial)
  from OrderRows_permutation [OF d so] d so show ?thesis by simp
qed

text \<open>
  C3: on such a graph, whatever path the search leaves in \<open>bestPath\<close> and whenever it is
  cut off, the ordering that \<open>OrderRows\<close> returns has at most as many crossings as the
  ordering of the barycentric orderer.
\<close>

theorem OrderRows_crossings:
  assumes "distinctIDs g" "searchOutcome g workers final"
  shows "\<exists>m. OrderRows g final = Some m \<and>
           CountCrossings g m \<le> CountCrossings g (Barycentric_OrderRows 0 g)"
proof (cases "RowIDs g = []")
  case True
  then show ?thesis by (simp add: OrderRows_def Barycentric_OrderRows_def)
next
  case ne: False
  show ?thesis
  proof (cases "CountCrossings g (Barycentric_OrderRows 0 g) = 0")
    case True
    then show ?thesis using ne by (simp add: OrderRows_def Let_def)
  next
    case False
    from OrderRows_search [OF assms ne False] show ?thesis by blast
  qed
qed

theorem OrderRows_crossings_witness:
  "distinctIDs crossDAG \<and> searchOutcome crossDAG 1 [Some [0, 1], Some [0, 1]] \<and>
   (\<exists>m. OrderRows crossDAG [Some [0, 1], Some [0, 1]] = Some m \<and> CountCrossings crossDAG m \<le> 1)"
proof -
  have d: "distinctIDs crossDAG" by (simp add: distinctIDs_def)
  have so: "searchOutcome crossDAG 1 [Some [0, 1], Some [0, 1]]"
    using crossDAG_path by (rule searchOutcome_initial)
  from OrderRows_crossings [OF d so] d so show ?thesis by (simp add: crossDAG_initialScore)
qed

end
